theory Spec2Isabelle
  imports Complex_Main "HOL-Library.Word" "HOL-Library.Log_Nat"
begin

section \<open>Byte buffers and the Python primitives the decoder uses\<close>

type_synonym byte = "8 word"

text \<open>
  \<^verbatim>\<open>bytes.find(sub, start)\<close>: the lowest index \<open>i \<ge> start\<close> at which \<open>sub\<close> occurs,
  or \<open>-1\<close>. \<open>scan\<close> walks the buffer from position \<open>i\<close> on.
\<close>

fun scan :: "byte list \<Rightarrow> byte list \<Rightarrow> nat \<Rightarrow> int" where
  "scan sub [] i = (if sub = [] then int i else - 1)"
| "scan sub (x # xs) i =
     (if take (length sub) (x # xs) = sub then int i else scan sub xs (Suc i))"

definition py_find :: "byte list \<Rightarrow> byte list \<Rightarrow> int \<Rightarrow> int" where
  "py_find content sub start =
     (let n = int (length content);
          s = (if start < 0 then max 0 (start + n) else start)
      in if s > n then - 1 else scan sub (drop (nat s) content) (nat s))"

text \<open>
  \<^verbatim>\<open>content[a:b]\<close> with Python's treatment of negative and out-of-range bounds:
  a negative bound counts from the end, and both are clipped to the buffer.
\<close>

definition slice_bound :: "nat \<Rightarrow> int \<Rightarrow> nat" where
  "slice_bound n i = (if i < 0 then nat (max 0 (i + int n)) else min (nat i) n)"

definition py_slice :: "'a list \<Rightarrow> int \<Rightarrow> int \<Rightarrow> 'a list" where
  "py_slice xs a b =
     (let lo = slice_bound (length xs) a; hi = slice_bound (length xs) b
      in take (hi - lo) (drop lo xs))"

definition py_slice_from :: "'a list \<Rightarrow> int \<Rightarrow> 'a list" where
  "py_slice_from xs a = drop (slice_bound (length xs) a) xs"

section \<open>Step 1 and 2 of \<open>process_spectro_file\<close>: locating the end of the header\<close>

definition wav :: "byte list" where
  "wav = [0x2E, 0x57, 0x41, 0x56]"

definition pattern :: "byte list" where
  "pattern = [0x00, 0x00, 0x00, 0x00, 0x40, 0x40, 0x00, 0x00]"

text \<open>Lines 11-16: \<open>header_end\<close> after the search for \<^verbatim>\<open>.WAV\<close> and the null byte.\<close>

definition provisional_header_end :: "byte list \<Rightarrow> int" where
  "provisional_header_end content =
     (let idx = py_find content wav 0
      in if idx \<noteq> - 1
         then (let null_pos = py_find content [0x00] idx
               in if null_pos \<noteq> - 1 then null_pos + 1 else 0)
         else 0)"

text \<open>Line 19: \<open>pat_idx\<close>.\<close>

definition pat_idx :: "byte list \<Rightarrow> int" where
  "pat_idx content = py_find content pattern (provisional_header_end content)"

text \<open>Lines 20-24: the final \<open>header_end\<close>.\<close>

definition header_end :: "byte list \<Rightarrow> int" where
  "header_end content =
     (if pat_idx content \<noteq> - 1
      then pat_idx content + int (length pattern)
      else max (provisional_header_end content) 100)"

text \<open>Line 26: \<open>data_bytes\<close>.\<close>

definition data_bytes :: "byte list \<Rightarrow> byte list" where
  "data_bytes content = py_slice_from content (header_end content)"

section \<open>Python floats\<close>

text \<open>
  A Python float is an IEEE 754 binary64 number. It is modelled by its value: a finite
  float is the rational it denotes, and the three special values stand beside it. The two
  zeros are one value here, as they are for Python's \<^verbatim>\<open>==\<close>; the decoder never divides by
  a float zero, so no operation it performs tells them apart.
\<close>

datatype pyfloat = Fin rat | PInf | NInf | NaN

datatype error = StructError | ZeroDivisionError | OverflowError | IndexError

definition bind_result :: "error + 'a \<Rightarrow> ('a \<Rightarrow> error + 'b) \<Rightarrow> error + 'b" where
  "bind_result m f = (case m of Inl e \<Rightarrow> Inl e | Inr x \<Rightarrow> f x)"

definition pow2 :: "int \<Rightarrow> rat" where
  "pow2 e = (if 0 \<le> e then 2 ^ nat e else 1 / 2 ^ nat (- e))"

text \<open>Rounding a rational to the nearest integer, ties to the even one.\<close>

definition rne :: "rat \<Rightarrow> int" where
  "rne x =
     (let f = \<lfloor>x\<rfloor>; r = x - of_int f
      in if r < 1 / 2 then f
         else if 1 / 2 < r then f + 1
         else if even f then f else f + 1)"

text \<open>The binary exponent of a positive rational: \<open>pow2 (ilog2 a) \<le> a < pow2 (ilog2 a + 1)\<close>.\<close>

definition ilog2 :: "rat \<Rightarrow> int" where
  "ilog2 a =
     (if 1 \<le> a then bitlen \<lfloor>a\<rfloor> - 1
      else (let k = bitlen \<lfloor>1 / a\<rfloor> - 1
            in if a = pow2 (- k) then - k else - k - 1))"

text \<open>
  The result of an arithmetic operation whose exact value is \<open>q\<close>: round to nearest, ties
  to even, with 53 significant bits, the least exponent \<open>-1074\<close> of the subnormal numbers,
  and overflow to an infinity from \<open>2 ^ 1024\<close> on. The floats around a positive rational
  \<open>a\<close> are the multiples of \<open>pow2 (float_exponent a)\<close>, and \<open>round_magnitude\<close> rounds \<open>a\<close> to
  one of them.
\<close>

definition float_exponent :: "rat \<Rightarrow> int" where
  "float_exponent a = max (ilog2 a - 52) (- 1074)"

definition round_magnitude :: "rat \<Rightarrow> rat" where
  "round_magnitude a =
     (let p = float_exponent a
      in of_int (rne (a / pow2 p)) * pow2 p)"

definition round_double :: "rat \<Rightarrow> pyfloat" where
  "round_double q =
     (if q = 0 then Fin 0
      else (let r = round_magnitude \<bar>q\<bar>
            in if pow2 1024 \<le> r then (if 0 < q then PInf else NInf)
               else Fin (if 0 < q then r else - r)))"

fun fneg :: "pyfloat \<Rightarrow> pyfloat" where
  "fneg (Fin x) = Fin (- x)"
| "fneg PInf = NInf"
| "fneg NInf = PInf"
| "fneg NaN = NaN"

fun fadd :: "pyfloat \<Rightarrow> pyfloat \<Rightarrow> pyfloat" where
  "fadd NaN y = NaN"
| "fadd x NaN = NaN"
| "fadd PInf NInf = NaN"
| "fadd NInf PInf = NaN"
| "fadd PInf y = PInf"
| "fadd x PInf = PInf"
| "fadd NInf y = NInf"
| "fadd x NInf = NInf"
| "fadd (Fin x) (Fin y) = round_double (x + y)"

definition fsub :: "pyfloat \<Rightarrow> pyfloat \<Rightarrow> pyfloat" where
  "fsub x y = fadd x (fneg y)"

text \<open>The sign of a product or quotient with an infinite operand.\<close>

definition signed_inf :: "bool \<Rightarrow> pyfloat" where
  "signed_inf positive = (if positive then PInf else NInf)"

fun fmul :: "pyfloat \<Rightarrow> pyfloat \<Rightarrow> pyfloat" where
  "fmul NaN y = NaN"
| "fmul x NaN = NaN"
| "fmul (Fin x) (Fin y) = round_double (x * y)"
| "fmul (Fin x) PInf = (if x = 0 then NaN else signed_inf (0 < x))"
| "fmul (Fin x) NInf = (if x = 0 then NaN else signed_inf (x < 0))"
| "fmul PInf (Fin y) = (if y = 0 then NaN else signed_inf (0 < y))"
| "fmul NInf (Fin y) = (if y = 0 then NaN else signed_inf (y < 0))"
| "fmul PInf PInf = PInf"
| "fmul PInf NInf = NInf"
| "fmul NInf PInf = NInf"
| "fmul NInf NInf = PInf"

text \<open>Python's float division raises \<^verbatim>\<open>ZeroDivisionError\<close> on a zero divisor.\<close>

fun fdiv :: "pyfloat \<Rightarrow> pyfloat \<Rightarrow> error + pyfloat" where
  "fdiv x (Fin y) =
     (if y = 0 then Inl ZeroDivisionError
      else case x of
             Fin x' \<Rightarrow> Inr (round_double (x' / y))
           | PInf \<Rightarrow> Inr (signed_inf (0 < y))
           | NInf \<Rightarrow> Inr (signed_inf (y < 0))
           | NaN \<Rightarrow> Inr NaN)"
| "fdiv x NaN = Inr NaN"
| "fdiv (Fin x) y = Inr (Fin 0)"
| "fdiv x y = Inr NaN"

text \<open>
  \<^verbatim>\<open>float(i)\<close>, also the conversion of an int operand in mixed arithmetic: correctly
  rounded, \<^verbatim>\<open>OverflowError\<close> when the int is too large for a float.
\<close>

definition float_of_int :: "int \<Rightarrow> error + pyfloat" where
  "float_of_int i =
     (case round_double (of_int i) of Fin r \<Rightarrow> Inr (Fin r) | _ \<Rightarrow> Inl OverflowError)"

text \<open>Python's comparisons on floats: every comparison with NaN but \<^verbatim>\<open>!=\<close> is false.\<close>

definition py_ne :: "pyfloat \<Rightarrow> pyfloat \<Rightarrow> bool" where
  "py_ne x y \<longleftrightarrow> x = NaN \<or> y = NaN \<or> x \<noteq> y"

fun py_lt :: "pyfloat \<Rightarrow> pyfloat \<Rightarrow> bool" where
  "py_lt (Fin x) (Fin y) \<longleftrightarrow> x < y"
| "py_lt NInf (Fin y) \<longleftrightarrow> True"
| "py_lt NInf PInf \<longleftrightarrow> True"
| "py_lt (Fin x) PInf \<longleftrightarrow> True"
| "py_lt x y \<longleftrightarrow> False"

text \<open>
  \<^verbatim>\<open>struct.unpack\<close> of one \<^verbatim>\<open>f\<close>: the IEEE 754 binary32 number with the bit pattern \<open>w\<close>,
  as the Python float of the same value.
\<close>

definition float32_of_bits :: "nat \<Rightarrow> pyfloat" where
  "float32_of_bits w =
     (let s = w div 2 ^ 31; e = (w div 2 ^ 23) mod 256; m = w mod 2 ^ 23
      in if e = 255 then (if m = 0 then (if s = 0 then PInf else NInf) else NaN)
         else (let v = (if e = 0 then of_int (int m) * pow2 (- 149)
                        else of_int (int (2 ^ 23 + m)) * pow2 (int e - 150))
               in Fin (if s = 0 then v else - v)))"

fun be_bits :: "byte list \<Rightarrow> nat" where
  "be_bits [] = 0"
| "be_bits (b # bs) = unat b * 256 ^ length bs + be_bits bs"

definition le_bits :: "byte list \<Rightarrow> nat" where
  "le_bits bs = be_bits (rev bs)"

fun groups4 :: "'a list \<Rightarrow> 'a list list" where
  "groups4 (a # b # c # d # rest) = [a, b, c, d] # groups4 rest"
| "groups4 rest = []"

fun groups2 :: "'a list \<Rightarrow> 'a list list" where
  "groups2 (a # b # rest) = [a, b] # groups2 rest"
| "groups2 rest = []"

text \<open>
  \<^verbatim>\<open>struct.unpack('>' + 'f'*count, data)\<close>, \<^verbatim>\<open>struct.unpack('<' + 'f'*count, data)\<close> and
  \<^verbatim>\<open>struct.unpack('<' + 'H'*count, data)\<close>: \<^verbatim>\<open>struct.error\<close> unless the buffer has exactly
  the size the format asks for.
\<close>

definition unpack_f_be :: "int \<Rightarrow> byte list \<Rightarrow> error + pyfloat list" where
  "unpack_f_be count data =
     (if int (length data) \<noteq> 4 * max 0 count then Inl StructError
      else Inr (map (\<lambda>g. float32_of_bits (be_bits g)) (groups4 data)))"

definition unpack_f_le :: "int \<Rightarrow> byte list \<Rightarrow> error + pyfloat list" where
  "unpack_f_le count data =
     (if int (length data) \<noteq> 4 * max 0 count then Inl StructError
      else Inr (map (\<lambda>g. float32_of_bits (le_bits g)) (groups4 data)))"

definition unpack_H_le :: "int \<Rightarrow> byte list \<Rightarrow> error + int list" where
  "unpack_H_le count data =
     (if int (length data) \<noteq> 2 * max 0 count then Inl StructError
      else Inr (map (\<lambda>g. int (le_bits g)) (groups2 data)))"

text \<open>A Python number: the values and wavelengths are ints or floats.\<close>

datatype pynum = PyInt int | PyFloat pyfloat

text \<open>\<^verbatim>\<open>i * step\<close> for an int \<open>i\<close>, and \<^verbatim>\<open>start_wl + y\<close> for a float \<open>start_wl\<close>.\<close>

fun int_times :: "int \<Rightarrow> pynum \<Rightarrow> error + pynum" where
  "int_times i (PyInt k) = Inr (PyInt (i * k))"
| "int_times i (PyFloat y) = bind_result (float_of_int i) (\<lambda>x. Inr (PyFloat (fmul x y)))"

fun float_plus :: "pyfloat \<Rightarrow> pynum \<Rightarrow> error + pynum" where
  "float_plus x (PyInt k) = bind_result (float_of_int k) (\<lambda>y. Inr (PyFloat (fadd x y)))"
| "float_plus x (PyFloat y) = Inr (PyFloat (fadd x y))"

text \<open>\<^verbatim>\<open>x / k\<close> for a float \<open>x\<close> and an int \<open>k\<close>.\<close>

definition float_div_int :: "pyfloat \<Rightarrow> int \<Rightarrow> error + pyfloat" where
  "float_div_int x k = bind_result (float_of_int k) (\<lambda>y. fdiv x y)"

section \<open>Step 3 of \<open>process_spectro_file\<close>: format detection and decoding\<close>

text \<open>Lines 40-47: the plausibility score, a loop with the counter \<open>valid_vals\<close>.\<close>

fun score_loop :: "pyfloat list \<Rightarrow> int \<Rightarrow> int" where
  "score_loop [] valid_vals = valid_vals"
| "score_loop (x # arr) valid_vals =
     score_loop arr
       (if py_ne x PInf \<and> py_ne x NInf \<and> \<not> py_ne x x
        then (if py_lt (Fin (- 1000)) x \<and> py_lt x (Fin 1000) then valid_vals + 1
              else valid_vals)
        else valid_vals)"

definition score_float_array :: "pyfloat list \<Rightarrow> int" where
  "score_float_array arr = score_loop arr 0"

text \<open>
  Lines 27-66: from \<open>data_bytes\<close> to \<open>data_point_count\<close>, \<open>values\<close> and \<open>data_type\<close>.
\<close>

definition decode :: "byte list \<Rightarrow> error + (int \<times> pynum list \<times> string)" where
  "decode data =
     (let n = int (length data)
      in if n mod 4 = 0 \<and> 0 < n then
           (let data_point_count = n div 4
            in bind_result (unpack_f_le data_point_count data) (\<lambda>floats_le.
               bind_result (unpack_f_be data_point_count data) (\<lambda>floats_be.
                 (let score_le = score_float_array floats_le;
                      score_be = score_float_array floats_be
                  in if score_le \<le> score_be
                     then Inr (data_point_count, map PyFloat floats_be, ''float32_be'')
                     else Inr (data_point_count, map PyFloat floats_le, ''float32_le'')))))
         else if n mod 2 = 0 \<and> 0 < n then
           (let data_point_count = n div 2
            in bind_result (unpack_H_le data_point_count data) (\<lambda>ints.
                 Inr (data_point_count, map PyInt ints, ''int16'')))
         else Inr (n, map (\<lambda>b. PyInt (uint b)) data, ''bytes''))"

section \<open>Step 4 of \<open>process_spectro_file\<close>: the wavelength axis\<close>

definition startswith :: "string \<Rightarrow> string \<Rightarrow> bool" where
  "startswith s p \<longleftrightarrow> take (length p) s = p"

text \<open>\<^verbatim>\<open>struct.unpack('>f', bs)[0]\<close>.\<close>

definition unpack_one_f_be :: "byte list \<Rightarrow> error + pyfloat" where
  "unpack_one_f_be bs =
     bind_result (unpack_f_be 1 bs) (\<lambda>t. case t of [] \<Rightarrow> Inl IndexError | x # _ \<Rightarrow> Inr x)"

text \<open>
  Lines 70-77: \<open>start_wl\<close> and \<open>end_wl\<close> after the attempt to read them before the
  marker; the \<^verbatim>\<open>except\<close> clause resets both.
\<close>

definition read_axis_range :: "byte list \<Rightarrow> int \<Rightarrow> pyfloat option \<times> pyfloat option" where
  "read_axis_range content p =
     (if p \<noteq> - 1 then
        (case bind_result (unpack_one_f_be (py_slice content (p - 8) (p - 4))) (\<lambda>start_wl.
              bind_result (unpack_one_f_be (py_slice content (p - 4) p)) (\<lambda>end_wl.
                Inr (start_wl, end_wl)))
         of Inl e \<Rightarrow> (None, None)
          | Inr (start_wl, end_wl) \<Rightarrow> (Some start_wl, Some end_wl))
      else (None, None))"

text \<open>Lines 79-81: the endpoints of the axis, read or defaulted.\<close>

definition axis_endpoints :: "byte list \<Rightarrow> int \<Rightarrow> int \<Rightarrow> error + (pyfloat \<times> pyfloat)" where
  "axis_endpoints content p data_point_count =
     (case read_axis_range content p of
        (Some start_wl, Some end_wl) \<Rightarrow> Inr (start_wl, end_wl)
      | _ \<Rightarrow> bind_result (float_of_int (data_point_count - 1)) (\<lambda>end_wl. Inr (Fin 0, end_wl)))"

text \<open>Line 83: \<open>step\<close>, a float, or the int \<open>0\<close>.\<close>

definition axis_step :: "pyfloat \<Rightarrow> pyfloat \<Rightarrow> int \<Rightarrow> error + pynum" where
  "axis_step start_wl end_wl data_point_count =
     (if 1 < data_point_count
      then bind_result (float_div_int (fsub end_wl start_wl) (data_point_count - 1))
             (\<lambda>s. Inr (PyFloat s))
      else Inr (PyInt 0))"

fun map_result :: "('a \<Rightarrow> error + 'b) \<Rightarrow> 'a list \<Rightarrow> error + 'b list" where
  "map_result f [] = Inr []"
| "map_result f (x # xs) =
     bind_result (f x) (\<lambda>y. bind_result (map_result f xs) (\<lambda>ys. Inr (y # ys)))"

definition py_range :: "int \<Rightarrow> int list" where
  "py_range n = map int [0..<nat n]"

text \<open>Line 84: the list comprehension.\<close>

definition axis_points :: "pyfloat \<Rightarrow> pynum \<Rightarrow> int \<Rightarrow> error + pynum list" where
  "axis_points start_wl step data_point_count =
     map_result (\<lambda>i. bind_result (int_times i step) (\<lambda>t. float_plus start_wl t))
       (py_range data_point_count)"

text \<open>Lines 68-87: \<open>wavelengths\<close>.\<close>

definition wavelengths :: "byte list \<Rightarrow> int \<Rightarrow> int \<Rightarrow> string \<Rightarrow> error + pynum list" where
  "wavelengths content p data_point_count data_type =
     (if startswith data_type ''float32'' then
        bind_result (axis_endpoints content p data_point_count) (\<lambda>(start_wl, end_wl).
        bind_result (axis_step start_wl end_wl data_point_count) (\<lambda>step.
          axis_points start_wl step data_point_count))
      else Inr (map PyInt (py_range data_point_count)))"

section \<open>The decoder\<close>

text \<open>
  \<open>process_spectro_file\<close> on the contents of the input file: the label it prints and the
  rows it writes, or the exception it raises. Opening the files and formatting the rows
  are left out.
\<close>

definition process_spectro_file :: "byte list \<Rightarrow> error + (string \<times> (pynum \<times> pynum) list)" where
  "process_spectro_file content =
     bind_result (decode (data_bytes content)) (\<lambda>(data_point_count, values, data_type).
     bind_result (wavelengths content (pat_idx content) data_point_count data_type) (\<lambda>wls.
       Inr (data_type, zip wls values)))"

section \<open>Notions used in the statements\<close>

text \<open>An occurrence of \<open>sub\<close> in \<open>xs\<close> at offset \<open>i\<close>.\<close>

definition occurs_at :: "byte list \<Rightarrow> byte list \<Rightarrow> nat \<Rightarrow> bool" where
  "occurs_at sub xs i \<longleftrightarrow> i + length sub \<le> length xs \<and> take (length sub) (drop i xs) = sub"

text \<open>\<open>sub\<close> occurs somewhere in \<open>xs\<close>.\<close>

definition contains :: "byte list \<Rightarrow> byte list \<Rightarrow> bool" where
  "contains xs sub \<longleftrightarrow> (\<exists>i\<in>{0..length xs}. occurs_at sub xs i)"

text \<open>The first occurrence of \<open>sub\<close> in \<open>xs\<close> is at offset \<open>i\<close>.\<close>

definition first_occurrence :: "byte list \<Rightarrow> byte list \<Rightarrow> nat \<Rightarrow> bool" where
  "first_occurrence sub xs i \<longleftrightarrow> occurs_at sub xs i \<and> (\<forall>j\<in>{0..<i}. \<not> occurs_at sub xs j)"

text \<open>
  \<^verbatim>\<open>sys.maxsize\<close> on a 64-bit platform: no \<^verbatim>\<open>bytes\<close> object is longer, and so no buffer
  that \<^verbatim>\<open>f.read()\<close> returns.
\<close>

definition sys_maxsize :: nat where
  "sys_maxsize = 2 ^ 63 - 1"

text \<open>Python's \<^verbatim>\<open><=\<close> on floats.\<close>

fun py_le :: "pyfloat \<Rightarrow> pyfloat \<Rightarrow> bool" where
  "py_le (Fin x) (Fin y) \<longleftrightarrow> x \<le> y"
| "py_le NaN y \<longleftrightarrow> False"
| "py_le x NaN \<longleftrightarrow> False"
| "py_le NInf y \<longleftrightarrow> True"
| "py_le x PInf \<longleftrightarrow> True"
| "py_le x y \<longleftrightarrow> False"

text \<open>
  The values the score counts: neither infinite nor NaN, and strictly between \<open>-1000\<close> and
  \<open>1000\<close>.
\<close>

definition plausible :: "pyfloat \<Rightarrow> bool" where
  "plausible x \<longleftrightarrow> (case x of Fin v \<Rightarrow> - 1000 < v \<and> v < 1000 | _ \<Rightarrow> False)"

definition plausible_count :: "pyfloat list \<Rightarrow> int" where
  "plausible_count arr = int (length (filter plausible arr))"

text \<open>
  The axis as the specification writes it: the float nearest to an int, the step
  \<open>(end - start) / (N - 1)\<close> for \<open>N > 1\<close> and \<open>0\<close> otherwise, and the wavelength
  \<open>start + i * step\<close>, every operation a float operation.
\<close>

definition float_of :: "int \<Rightarrow> pyfloat" where
  "float_of i = round_double (of_int i)"

definition spec_step :: "pyfloat \<Rightarrow> pyfloat \<Rightarrow> int \<Rightarrow> pyfloat" where
  "spec_step start_wl end_wl n =
     (if 1 < n
      then (case fdiv (fsub end_wl start_wl) (float_of (n - 1)) of Inr s \<Rightarrow> s | Inl e \<Rightarrow> NaN)
      else Fin 0)"

definition spec_wavelength :: "pyfloat \<Rightarrow> pyfloat \<Rightarrow> int \<Rightarrow> pyfloat" where
  "spec_wavelength start_wl step i = fadd start_wl (fmul (float_of i) step)"

text \<open>
  The wavelengths of the first \<open>k\<close> rows of a result of the decoder.
\<close>

definition first_wavelengths ::
  "nat \<Rightarrow> error + (string \<times> (pynum \<times> pynum) list) \<Rightarrow> pynum list" where
  "first_wavelengths k r = (case r of Inr (data_type, rows) \<Rightarrow> map fst (take k rows) | Inl e \<Rightarrow> [])"

section \<open>Example buffers\<close>

text \<open>
  \<open>example_axis\<close>: the big-endian floats 400.0 and 700.0, the marker, and the data
  1.0 and 2.0 as big-endian floats. \<open>example_no_axis\<close>: the marker at offset 0 and
  one float. \<open>example_int16\<close>: the marker and six bytes of data.
\<close>

definition example_axis :: "byte list" where
  "example_axis = [0x43, 0xC8, 0x00, 0x00, 0x44, 0x2F, 0x00, 0x00] @ pattern @
                  [0x3F, 0x80, 0x00, 0x00, 0x40, 0x00, 0x00, 0x00]"

definition example_no_axis :: "byte list" where
  "example_no_axis = pattern @ [0x3F, 0x80, 0x00, 0x00]"

definition example_int16 :: "byte list" where
  "example_int16 = pattern @ [0x01, 0x00, 0x02, 0x00, 0x03, 0x00]"

text \<open>
  \<open>example_inf_axis\<close>: as \<open>example_axis\<close>, with the big-endian floats \<open>-inf\<close> and 1.0
  before the marker.
\<close>

definition example_inf_axis :: "byte list" where
  "example_inf_axis = [0xFF, 0x80, 0x00, 0x00, 0x3F, 0x80, 0x00, 0x00] @ pattern @
                      [0x3F, 0x80, 0x00, 0x00, 0x40, 0x00, 0x00, 0x00]"

text \<open>
  The buffer of scenario 1 of the specification: \<^verbatim>\<open>.WAV\<close> and a null byte, 92 bytes \<open>arb\<close>,
  the marker, the big-endian floats 400.0 and 700.0, and the big-endian floats 1.0 and
  2.0. \<open>scenario_one_filler\<close> is one choice of the 92 bytes, the letter \<^verbatim>\<open>A\<close> throughout.
\<close>

definition scenario_one :: "byte list \<Rightarrow> byte list" where
  "scenario_one arb =
     [0x2E, 0x57, 0x41, 0x56, 0x00] @ arb @ pattern @
     [0x43, 0xC8, 0x00, 0x00, 0x44, 0x2F, 0x00, 0x00] @
     [0x3F, 0x80, 0x00, 0x00, 0x40, 0x00, 0x00, 0x00]"

definition scenario_one_filler :: "byte list" where
  "scenario_one_filler = replicate 92 0x41"

text \<open>
  \<open>example_long_axis\<close>: the big-endian floats 1.0 and 1.00000011920928955078125 (the next
  binary32 number after 1.0), the marker, and \<open>2 ^ 30 + 1\<close> samples, all of them 0.0.
\<close>

definition example_long_axis :: "byte list" where
  "example_long_axis = [0x3F, 0x80, 0x00, 0x00, 0x3F, 0x80, 0x00, 0x01] @ pattern @
                       replicate (4 * 1073741825) 0x00"

section \<open>Facts about the search\<close>

lemma occurs_at_Cons_Suc: "occurs_at sub (x # xs) (Suc j) \<longleftrightarrow> occurs_at sub xs j"
  by (simp add: occurs_at_def)

lemma occurs_at_0: "occurs_at sub xs 0 \<longleftrightarrow> take (length sub) xs = sub"
proof
  assume "occurs_at sub xs 0"
  then show "take (length sub) xs = sub" by (simp add: occurs_at_def)
next
  assume h: "take (length sub) xs = sub"
  then have "length (take (length sub) xs) = length sub" by simp
  then have "length sub \<le> length xs" by (auto simp: min_def split: if_splits)
  with h show "occurs_at sub xs 0" by (simp add: occurs_at_def)
qed

lemma occurs_at_drop:
  "s \<le> length xs \<Longrightarrow> occurs_at sub (drop s xs) k \<longleftrightarrow> occurs_at sub xs (s + k)"
  by (auto simp: occurs_at_def add.commute)

lemma scan_spec:
  "(scan sub xs i = - 1 \<and> (\<forall>j. \<not> occurs_at sub xs j)) \<or>
   (\<exists>k. scan sub xs i = int (i + k) \<and> occurs_at sub xs k \<and> (\<forall>j<k. \<not> occurs_at sub xs j))"
proof (induction xs arbitrary: i)
  case Nil
  show ?case
  proof (cases "sub = []")
    case True
    then have "scan sub [] i = int (i + 0) \<and> occurs_at sub [] 0" by (simp add: occurs_at_def)
    then show ?thesis by blast
  next
    case False
    then show ?thesis by (simp add: occurs_at_def)
  qed
next
  case (Cons x xs)
  show ?case
  proof (cases "take (length sub) (x # xs) = sub")
    case True
    then have "scan sub (x # xs) i = int (i + 0)" by simp
    moreover from True have "occurs_at sub (x # xs) 0" by (simp only: occurs_at_0)
    ultimately show ?thesis by blast
  next
    case False
    then have step: "scan sub (x # xs) i = scan sub xs (Suc i)" by simp
    from False have no0: "\<not> occurs_at sub (x # xs) 0" by (simp only: occurs_at_0 not_False_eq_True)
    from Cons.IH [of "Suc i"] show ?thesis
    proof
      assume a: "scan sub xs (Suc i) = - 1 \<and> (\<forall>j. \<not> occurs_at sub xs j)"
      have "\<not> occurs_at sub (x # xs) j" for j
        using a no0 by (cases j) (simp_all add: occurs_at_Cons_Suc)
      with a step show ?thesis by simp
    next
      assume "\<exists>k. scan sub xs (Suc i) = int (Suc i + k) \<and> occurs_at sub xs k \<and> (\<forall>j<k. \<not> occurs_at sub xs j)"
      then obtain k where k: "scan sub xs (Suc i) = int (Suc i + k)" "occurs_at sub xs k"
        "\<forall>j<k. \<not> occurs_at sub xs j" by blast
      have "\<not> occurs_at sub (x # xs) j" if "j < Suc k" for j
        using that k(3) no0 by (cases j) (simp_all add: occurs_at_Cons_Suc)
      moreover have "scan sub (x # xs) i = int (i + Suc k)" using step k(1) by simp
      moreover have "occurs_at sub (x # xs) (Suc k)" using k(2) by (simp add: occurs_at_Cons_Suc)
      ultimately show ?thesis by blast
    qed
  qed
qed

lemma py_find_spec:
  assumes "0 \<le> start" "start \<le> int (length content)"
  shows "(py_find content sub start = - 1 \<and> (\<forall>j\<ge>nat start. \<not> occurs_at sub content j)) \<or>
         (\<exists>r\<ge>nat start. py_find content sub start = int r \<and> occurs_at sub content r \<and>
              (\<forall>j. nat start \<le> j \<and> j < r \<longrightarrow> \<not> occurs_at sub content j))"
proof -
  define s where "s = nat start"
  have s: "s \<le> length content" "start = int s" using assms by (simp_all add: s_def)
  have pf: "py_find content sub start = scan sub (drop s content) s"
    using assms by (simp add: py_find_def s_def)
  from scan_spec [of sub "drop s content" s] show ?thesis
  proof
    assume a: "scan sub (drop s content) s = - 1 \<and> (\<forall>j. \<not> occurs_at sub (drop s content) j)"
    have "\<not> occurs_at sub content j" if "s \<le> j" for j
    proof -
      from a have "\<not> occurs_at sub (drop s content) (j - s)" by blast
      with s(1) that show ?thesis by (simp add: occurs_at_drop)
    qed
    with a pf show ?thesis by (simp add: s_def)
  next
    assume "\<exists>k. scan sub (drop s content) s = int (s + k) \<and> occurs_at sub (drop s content) k \<and>
                (\<forall>j<k. \<not> occurs_at sub (drop s content) j)"
    then obtain k where k: "scan sub (drop s content) s = int (s + k)"
      "occurs_at sub (drop s content) k" "\<forall>j<k. \<not> occurs_at sub (drop s content) j" by blast
    have "\<not> occurs_at sub content j" if "s \<le> j" "j < s + k" for j
    proof -
      from that k(3) have "\<not> occurs_at sub (drop s content) (j - s)" by simp
      with s(1) that show ?thesis by (simp add: occurs_at_drop)
    qed
    moreover have "occurs_at sub content (s + k)" using k(2) s(1) by (simp add: occurs_at_drop)
    moreover have "py_find content sub start = int (s + k)" using pf k(1) by simp
    ultimately show ?thesis unfolding s_def [symmetric] by (intro disjI2 exI [of _ "s + k"]) simp
  qed
qed


lemma occurs_at_length: "occurs_at sub xs i \<Longrightarrow> i + length sub \<le> length xs"
  by (simp add: occurs_at_def)

lemma occurs_at_nth:
  assumes "occurs_at sub xs i" "k < length sub"
  shows "xs ! (i + k) = sub ! k"
proof -
  from assms have "take (length sub) (drop i xs) ! k = sub ! k" by (simp add: occurs_at_def)
  moreover from assms have "i + k < length xs" by (simp add: occurs_at_def)
  ultimately show ?thesis using assms(2) by simp
qed

lemma py_find_start_beyond: "int (length content) < start \<Longrightarrow> py_find content sub start = - 1"
  by (simp add: py_find_def)

lemma py_find_eqI:
  assumes "0 \<le> start" "nat start \<le> r" "occurs_at sub content r" "sub \<noteq> []"
    and "\<And>j. nat start \<le> j \<Longrightarrow> j < r \<Longrightarrow> \<not> occurs_at sub content j"
  shows "py_find content sub start = int r"
proof -
  from assms(3) have "r + length sub \<le> length content" by (rule occurs_at_length)
  with assms(1,2) have le: "start \<le> int (length content)" by linarith
  from py_find_spec [OF assms(1) le, of sub] show ?thesis
  proof
    assume "py_find content sub start = - 1 \<and> (\<forall>j\<ge>nat start. \<not> occurs_at sub content j)"
    with assms(2,3) show ?thesis by blast
  next
    assume "\<exists>r'\<ge>nat start. py_find content sub start = int r' \<and> occurs_at sub content r' \<and>
              (\<forall>j. nat start \<le> j \<and> j < r' \<longrightarrow> \<not> occurs_at sub content j)"
    then obtain r' where r': "nat start \<le> r'" "py_find content sub start = int r'"
      "occurs_at sub content r'" "\<forall>j. nat start \<le> j \<and> j < r' \<longrightarrow> \<not> occurs_at sub content j"
      by blast
    have "\<not> r' < r" using assms(5) [of r'] r'(1,3) by blast
    moreover have "\<not> r < r'" using r'(4) assms(2,3) by blast
    ultimately show ?thesis using r'(2) by simp
  qed
qed

lemma py_find_noneI:
  assumes "0 \<le> start" "\<And>j. nat start \<le> j \<Longrightarrow> \<not> occurs_at sub content j"
  shows "py_find content sub start = - 1"
proof (cases "start \<le> int (length content)")
  case True
  from py_find_spec [OF assms(1) True, of sub] assms(2) show ?thesis by blast
next
  case False
  then show ?thesis by (simp add: py_find_start_beyond)
qed

lemma py_find_total:
  assumes "0 \<le> start"
  shows "py_find content sub start = - 1 \<or>
         (\<exists>r\<ge>nat start. py_find content sub start = int r \<and> occurs_at sub content r \<and>
              (\<forall>j. nat start \<le> j \<and> j < r \<longrightarrow> \<not> occurs_at sub content j))"
proof (cases "start \<le> int (length content)")
  case True
  from py_find_spec [OF assms True, of sub] show ?thesis by blast
next
  case False
  then show ?thesis by (simp add: py_find_start_beyond)
qed

lemma provisional_header_end_range:
  "0 \<le> provisional_header_end content \<and> provisional_header_end content \<le> int (length content)"
proof -
  consider (no_wav) "py_find content wav 0 = - 1"
    | (wav) idx where "py_find content wav 0 = int idx"
    using py_find_total [of 0 content wav] by auto
  then show ?thesis
  proof cases
    case no_wav
    then show ?thesis by (simp add: provisional_header_end_def Let_def)
  next
    case (wav idx)
    consider (no_null) "py_find content [0x00] (int idx) = - 1"
      | (null) null_pos where "py_find content [0x00] (int idx) = int null_pos"
          "occurs_at [0x00] content null_pos"
      using py_find_total [of "int idx" content "[0x00]"] by auto
    then show ?thesis
    proof cases
      case no_null
      with wav show ?thesis by (simp add: provisional_header_end_def Let_def)
    next
      case (null null_pos)
      from null(2) have "null_pos + 1 \<le> length content" by (simp add: occurs_at_def)
      with null(1) wav show ?thesis by (simp add: provisional_header_end_def Let_def)
    qed
  qed
qed

lemma header_end_found:
  assumes "pat_idx content \<noteq> - 1"
  shows "\<exists>r. pat_idx content = int r \<and> header_end content = int r + 8 \<and>
             nat (provisional_header_end content) \<le> r \<and> occurs_at pattern content r \<and>
             r + 8 \<le> length content \<and>
             (\<forall>j. nat (provisional_header_end content) \<le> j \<and> j < r \<longrightarrow>
                  \<not> occurs_at pattern content j)"
proof -
  have nn: "0 \<le> provisional_header_end content" using provisional_header_end_range by blast
  from py_find_total [OF nn, of content pattern] assms
  obtain r where r: "nat (provisional_header_end content) \<le> r"
      "py_find content pattern (provisional_header_end content) = int r"
      "occurs_at pattern content r"
      "\<forall>j. nat (provisional_header_end content) \<le> j \<and> j < r \<longrightarrow> \<not> occurs_at pattern content j"
    unfolding pat_idx_def by blast
  from r(3) have "r + 8 \<le> length content" by (simp add: occurs_at_def pattern_def)
  moreover have "pat_idx content = int r" using r(2) by (simp add: pat_idx_def)
  moreover from this have "header_end content = int r + 8"
    by (simp add: header_end_def pattern_def)
  ultimately show ?thesis using r(1,3,4) by blast
qed

lemma header_end_absent:
  "pat_idx content = - 1 \<Longrightarrow> header_end content = max (provisional_header_end content) 100"
  by (simp add: header_end_def)

lemma header_end_nonneg: "0 \<le> header_end content"
proof (cases "pat_idx content = - 1")
  case True
  then show ?thesis by (simp add: header_end_absent)
next
  case False
  from header_end_found [OF False] show ?thesis by auto
qed

lemma data_bytes_eq: "data_bytes content = drop (nat (header_end content)) content"
  using header_end_nonneg [of content]
  by (simp add: data_bytes_def py_slice_from_def slice_bound_def min_def)

lemma length_data_bytes:
  "int (length (data_bytes content)) = max 0 (int (length content) - header_end content)"
  using header_end_nonneg [of content] by (simp add: data_bytes_eq)


lemma not_contains: "\<not> contains xs sub \<Longrightarrow> \<not> occurs_at sub xs j"
  unfolding contains_def using occurs_at_length [of sub xs j] by auto

lemma contains_hd:
  assumes "contains xs sub" "sub \<noteq> []"
  shows "hd sub \<in> set xs"
proof -
  from assms(1) obtain i where occ: "occurs_at sub xs i" by (auto simp: contains_def)
  from assms(2) have "0 < length sub" by simp
  with occ have "xs ! (i + 0) = sub ! 0" by (rule occurs_at_nth)
  moreover from occ assms(2) have "i < length xs"
    by (cases sub) (simp_all add: occurs_at_def)
  ultimately show ?thesis using assms(2) by (auto simp: hd_conv_nth in_set_conv_nth)
qed

lemma no_wav_provisional: "\<not> contains content wav \<Longrightarrow> provisional_header_end content = 0"
proof -
  assume "\<not> contains content wav"
  then have "py_find content wav 0 = - 1"
    by (intro py_find_noneI) (simp_all add: not_contains)
  then show ?thesis by (simp add: provisional_header_end_def)
qed

lemma no_null_find:
  assumes "0 \<notin> set (drop i content)"
  shows "py_find content [0x00] (int i) = - 1"
proof (rule py_find_noneI)
  fix j assume j: "nat (int i) \<le> j"
  show "\<not> occurs_at [0x00] content j"
  proof
    assume occ: "occurs_at [0x00] content j"
    then have "content ! (j + 0) = [0x00] ! 0" by (rule occurs_at_nth) simp
    moreover from occ have "j < length content" by (simp add: occurs_at_def)
    ultimately have "0 \<in> set (drop i content)"
      using j by (auto simp: in_set_conv_nth intro!: exI [of _ "j - i"])
    with assms show False by simp
  qed
qed simp

lemma decode_empty: "decode [] = Inr (0, [], ''bytes'')"
  by (simp add: decode_def)

lemma process_empty_data:
  assumes "data_bytes content = []"
  shows "process_spectro_file content = Inr (''bytes'', [])"
  using assms
  by (simp add: process_spectro_file_def decode_empty bind_result_def wavelengths_def
      startswith_def py_range_def)

section \<open>Facts about rounding\<close>

lemma pow2_powi: "pow2 e = 2 powi e"
  by (simp add: pow2_def power_int_def inverse_eq_divide power_one_over)

lemma pow2_pos: "0 < pow2 e"
  by (simp add: pow2_powi)

lemma pow2_add: "pow2 (a + b) = pow2 a * pow2 b"
  by (simp add: pow2_powi power_int_add)

lemma pow2_diff: "pow2 (a - b) = pow2 a / pow2 b"
  by (simp add: pow2_powi power_int_diff)

lemma pow2_mono: "a \<le> b \<Longrightarrow> pow2 a \<le> pow2 b"
  by (simp add: pow2_powi power_int_increasing)

lemma pow2_strict_mono: "a < b \<Longrightarrow> pow2 a < pow2 b"
  by (simp add: pow2_powi power_int_strict_increasing)

lemma pow2_le_iff: "pow2 a \<le> pow2 b \<longleftrightarrow> a \<le> b"
  using pow2_mono [of a b] pow2_strict_mono [of b a] by (auto simp: not_le [symmetric])

lemma pow2_less_iff: "pow2 a < pow2 b \<longleftrightarrow> a < b"
  using pow2_mono [of b a] pow2_strict_mono [of a b] by (auto simp: not_less [symmetric])

lemma pow2_nat: "pow2 (int n) = 2 ^ n"
  by (simp add: pow2_def)

lemma pow2_of_int: "0 \<le> e \<Longrightarrow> pow2 e = of_int (2 ^ nat e)"
  by (simp add: pow2_def)

lemma rne_cases: "rne x = \<lfloor>x\<rfloor> \<or> rne x = \<lfloor>x\<rfloor> + 1"
  by (simp add: rne_def Let_def)

lemma rne_of_int: "rne (of_int k) = k"
  by (simp add: rne_def)

lemma rne_mono:
  assumes "x \<le> y"
  shows "rne x \<le> rne y"
proof (cases "\<lfloor>x\<rfloor> = \<lfloor>y\<rfloor>")
  case False
  with assms have "\<lfloor>x\<rfloor> < \<lfloor>y\<rfloor>" using floor_mono [of x y] by linarith
  then show ?thesis using rne_cases [of x] rne_cases [of y] by linarith
next
  case True
  with assms have "x - of_int \<lfloor>x\<rfloor> \<le> y - of_int \<lfloor>y\<rfloor>" by simp
  with True show ?thesis by (auto simp: rne_def Let_def)
qed

lemma rne_le: "x \<le> of_int k \<Longrightarrow> rne x \<le> k"
  using rne_mono [of x "of_int k"] by (simp add: rne_of_int)

lemma rne_ge: "of_int k \<le> x \<Longrightarrow> k \<le> rne x"
  using rne_mono [of "of_int k" x] by (simp add: rne_of_int)

lemma bitlen_floor_bounds:
  fixes x :: rat
  assumes "1 \<le> x"
  defines "k \<equiv> bitlen \<lfloor>x\<rfloor> - 1"
  shows "0 \<le> k" "pow2 k \<le> x" "x < pow2 (k + 1)"
proof -
  let ?n = "\<lfloor>x\<rfloor>"
  from assms(1) have n: "1 \<le> ?n" by simp
  then have pos: "0 < ?n" by simp
  from bitlen_bounds [OF pos] have b: "2 ^ nat k \<le> ?n" "?n < 2 ^ nat (k + 1)"
    by (simp_all add: k_def)
  have "bitlen ?n \<noteq> 0" using pos by (simp add: bitlen_eq_zero_iff)
  with bitlen_nonneg [of ?n] show k0: "0 \<le> k" by (simp add: k_def)
  have "pow2 k = of_int (2 ^ nat k)" using k0 by (simp add: pow2_of_int)
  also have "\<dots> \<le> of_int ?n" using b(1) by (simp only: of_int_le_iff)
  also have "\<dots> \<le> x" by simp
  finally show "pow2 k \<le> x" .
  have "x < of_int (?n + 1)" using floor_correct [of x] by simp
  also have "\<dots> \<le> of_int (2 ^ nat (k + 1))" using b(2) by (simp only: of_int_le_iff)
  also have "\<dots> = pow2 (k + 1)" using k0 by (simp add: pow2_of_int)
  finally show "x < pow2 (k + 1)" .
qed

lemma pow2_minus: "pow2 (- e) = 1 / pow2 e"
  by (simp add: pow2_powi power_int_minus_divide)

lemma ilog2_bounds:
  assumes "0 < a"
  shows "pow2 (ilog2 a) \<le> a \<and> a < pow2 (ilog2 a + 1)"
proof (cases "1 \<le> a")
  case True
  with bitlen_floor_bounds [OF True] show ?thesis by (simp add: ilog2_def)
next
  case False
  define k where "k = bitlen \<lfloor>1 / a\<rfloor> - 1"
  from False assms have "1 \<le> 1 / a" by (simp add: field_simps)
  from bitlen_floor_bounds [OF this] have k: "pow2 k \<le> 1 / a" "1 / a < pow2 (k + 1)"
    by (simp_all add: k_def)
  from k(1) assms have up: "a \<le> pow2 (- k)"
    using pow2_pos [of k] by (simp add: pow2_minus field_simps)
  have "pow2 (- k - 1) = 1 / pow2 (k + 1)" using pow2_minus [of "k + 1"] by simp
  moreover from k(2) assms have "1 / pow2 (k + 1) < a"
    using pow2_pos [of "k + 1"] by (simp add: field_simps)
  ultimately have lo: "pow2 (- k - 1) < a" by simp
  show ?thesis
  proof (cases "a = pow2 (- k)")
    case True
    then have "ilog2 a = - k" using False by (simp add: ilog2_def k_def Let_def)
    moreover have "pow2 (- k) < pow2 (- k + 1)" by (simp add: pow2_less_iff)
    ultimately show ?thesis using True by simp
  next
    case neq: False
    then have "ilog2 a = - k - 1" using False by (simp add: ilog2_def k_def Let_def)
    with lo up neq show ?thesis by simp
  qed
qed

lemma ilog2_unique:
  assumes "pow2 e \<le> a" "a < pow2 (e + 1)"
  shows "ilog2 a = e"
proof -
  have pos: "0 < a" using assms(1) pow2_pos [of e] by linarith
  from ilog2_bounds [OF pos] have b: "pow2 (ilog2 a) \<le> a" "a < pow2 (ilog2 a + 1)" by simp_all
  from b(1) assms(2) have "pow2 (ilog2 a) < pow2 (e + 1)" by linarith
  then have "ilog2 a < e + 1" by (simp only: pow2_less_iff)
  moreover from assms(1) b(2) have "pow2 e < pow2 (ilog2 a + 1)" by linarith
  then have "e < ilog2 a + 1" by (simp only: pow2_less_iff)
  ultimately show ?thesis by simp
qed

lemma ilog2_mono:
  assumes "0 < a" "a \<le> b"
  shows "ilog2 a \<le> ilog2 b"
proof -
  from assms have "0 < b" by simp
  from ilog2_bounds [OF assms(1)] ilog2_bounds [OF this] assms(2)
  have "pow2 (ilog2 a) < pow2 (ilog2 b + 1)" by linarith
  then show ?thesis by (simp add: pow2_less_iff)
qed

lemma ilog2_less: "0 < a \<Longrightarrow> a < pow2 k \<Longrightarrow> ilog2 a < k"
  using ilog2_bounds [of a] pow2_less_iff [of "ilog2 a" k] by linarith

lemma ilog2_ge: "pow2 k \<le> a \<Longrightarrow> k \<le> ilog2 a"
proof -
  assume h: "pow2 k \<le> a"
  then have "0 < a" using pow2_pos [of k] by linarith
  from ilog2_bounds [OF this] h have "pow2 k < pow2 (ilog2 a + 1)" by linarith
  then show ?thesis by (simp add: pow2_less_iff)
qed

lemma float_exponent_ge: "- 1074 \<le> float_exponent a" "ilog2 a - 52 \<le> float_exponent a"
  by (simp_all add: float_exponent_def)

lemma float_exponent_mono: "0 < a \<Longrightarrow> a \<le> b \<Longrightarrow> float_exponent a \<le> float_exponent b"
  using ilog2_mono [of a b] by (simp add: float_exponent_def)

lemma scaled_less:
  assumes "0 < a"
  shows "a / pow2 (float_exponent a) < 2 ^ 53"
proof -
  have "a < pow2 (ilog2 a + 1)" using ilog2_bounds [OF assms] by simp
  also have "\<dots> \<le> pow2 (float_exponent a + 53)"
    using float_exponent_ge(2) [of a] by (simp add: pow2_le_iff)
  also have "\<dots> = pow2 (float_exponent a) * 2 ^ 53"
    using pow2_nat [of 53] by (simp add: pow2_add)
  finally show ?thesis using pow2_pos [of "float_exponent a"] by (simp add: field_simps)
qed

lemma scaled_ge:
  assumes "0 < a" "- 1074 < float_exponent a"
  shows "2 ^ 52 \<le> a / pow2 (float_exponent a)"
proof -
  from assms(2) have p: "float_exponent a = ilog2 a - 52" by (simp add: float_exponent_def)
  have "pow2 (float_exponent a) * 2 ^ 52 = pow2 (float_exponent a + 52)"
    using pow2_nat [of 52] by (simp add: pow2_add)
  also have "\<dots> \<le> a" using ilog2_bounds [OF assms(1)] by (simp add: p)
  finally show ?thesis using pow2_pos [of "float_exponent a"] by (simp add: field_simps)
qed

lemma round_magnitude_eq:
  "round_magnitude a = of_int (rne (a / pow2 (float_exponent a))) * pow2 (float_exponent a)"
  by (simp add: round_magnitude_def Let_def)

lemma round_magnitude_upper:
  assumes "0 < a"
  shows "round_magnitude a \<le> pow2 (float_exponent a + 53)"
proof -
  have "a / pow2 (float_exponent a) \<le> of_int (2 ^ 53)"
    using scaled_less [OF assms] by simp
  then have "rne (a / pow2 (float_exponent a)) \<le> 2 ^ 53" by (rule rne_le)
  then have "(of_int (rne (a / pow2 (float_exponent a))) :: rat) \<le> of_int (2 ^ 53)"
    by (simp only: of_int_le_iff)
  then have "round_magnitude a \<le> 2 ^ 53 * pow2 (float_exponent a)"
    using pow2_pos [of "float_exponent a"] by (simp add: round_magnitude_eq)
  also have "\<dots> = pow2 (float_exponent a + 53)"
    using pow2_nat [of 53] by (simp add: pow2_add)
  finally show ?thesis .
qed

lemma round_magnitude_lower:
  assumes "0 < a" "- 1074 < float_exponent a"
  shows "pow2 (float_exponent a + 52) \<le> round_magnitude a"
proof -
  have "of_int (2 ^ 52) \<le> a / pow2 (float_exponent a)"
    using scaled_ge [OF assms] by simp
  then have "2 ^ 52 \<le> rne (a / pow2 (float_exponent a))" by (rule rne_ge)
  then have "(of_int (2 ^ 52) :: rat) \<le> of_int (rne (a / pow2 (float_exponent a)))"
    by (simp only: of_int_le_iff)
  then have "2 ^ 52 * pow2 (float_exponent a) \<le> round_magnitude a"
    using pow2_pos [of "float_exponent a"] by (simp add: round_magnitude_eq)
  moreover have "2 ^ 52 * pow2 (float_exponent a) = pow2 (float_exponent a + 52)"
    using pow2_nat [of 52] by (simp add: pow2_add)
  ultimately show ?thesis by simp
qed

lemma round_magnitude_nonneg:
  assumes "0 < a"
  shows "0 \<le> round_magnitude a"
proof -
  have "of_int 0 \<le> a / pow2 (float_exponent a)"
    using assms pow2_pos [of "float_exponent a"] by simp
  then have "0 \<le> rne (a / pow2 (float_exponent a))" by (rule rne_ge)
  then show ?thesis using pow2_pos [of "float_exponent a"] by (simp add: round_magnitude_eq)
qed

lemma round_magnitude_mono:
  assumes "0 < a" "a \<le> b"
  shows "round_magnitude a \<le> round_magnitude b"
proof (cases "float_exponent a = float_exponent b")
  case True
  have "a / pow2 (float_exponent b) \<le> b / pow2 (float_exponent b)"
    using assms(2) pow2_pos [of "float_exponent b"] by (simp add: divide_right_mono)
  then have "rne (a / pow2 (float_exponent b)) \<le> rne (b / pow2 (float_exponent b))"
    by (rule rne_mono)
  then show ?thesis
    using pow2_pos [of "float_exponent b"] by (simp add: round_magnitude_eq True)
next
  case False
  with float_exponent_mono [OF assms] have lt: "float_exponent a < float_exponent b" by simp
  from assms have b: "0 < b" by simp
  have "round_magnitude a \<le> pow2 (float_exponent a + 53)"
    using assms(1) by (rule round_magnitude_upper)
  also have "\<dots> \<le> pow2 (float_exponent b + 52)" using lt by (simp add: pow2_le_iff)
  also have "\<dots> \<le> round_magnitude b"
    using lt float_exponent_ge(1) [of a] by (intro round_magnitude_lower [OF b]) simp
  finally show ?thesis .
qed

lemma round_magnitude_exact:
  assumes "0 < m" "m < 2 ^ 53" "- 1074 \<le> e"
  shows "round_magnitude (of_int m * pow2 e) = of_int m * pow2 e"
proof -
  let ?a = "of_int m * pow2 e :: rat"
  let ?p = "float_exponent ?a"
  have pos: "0 < ?a" using assms(1) pow2_pos [of e] by simp
  have "(of_int m :: rat) < of_int (2 ^ 53)" using assms(2) by (simp only: of_int_less_iff)
  then have "?a < 2 ^ 53 * pow2 e" using pow2_pos [of e] by simp
  also have "\<dots> = pow2 (e + 53)" using pow2_nat [of 53] by (simp add: pow2_add)
  finally have "ilog2 ?a < e + 53" using pos by (intro ilog2_less)
  with assms(3) have pe: "?p \<le> e" by (simp add: float_exponent_def)
  define d where "d = nat (e - ?p)"
  have "pow2 e = pow2 (e - ?p) * pow2 ?p" by (simp add: pow2_add [symmetric])
  also have "pow2 (e - ?p) = of_int (2 ^ d)" using pe by (simp add: pow2_of_int d_def)
  finally have split: "pow2 e = of_int (2 ^ d) * pow2 ?p" .
  have cancel: "x * (y * z) / z = x * y" if "0 < z" for x y z :: rat
    using that by simp
  have "?a / pow2 ?p = of_int m * (of_int (2 ^ d) * pow2 ?p) / pow2 ?p"
    using split by simp
  also have "\<dots> = of_int m * of_int (2 ^ d)" using pow2_pos [of ?p] by (rule cancel)
  also have "\<dots> = of_int (m * 2 ^ d)" by simp
  finally have "rne (?a / pow2 ?p) = m * 2 ^ d" by (simp only: rne_of_int)
  then have "round_magnitude ?a = of_int (m * 2 ^ d) * pow2 ?p"
    by (simp only: round_magnitude_eq)
  also have "\<dots> = of_int m * (of_int (2 ^ d) * pow2 ?p)" by simp
  also have "\<dots> = ?a" using split by simp
  finally show ?thesis .
qed

lemma round_double_zero: "round_double 0 = Fin 0"
  by (simp add: round_double_def)

lemma round_double_pos:
  "0 < q \<Longrightarrow> round_double q =
     (if pow2 1024 \<le> round_magnitude q then PInf else Fin (round_magnitude q))"
  by (simp add: round_double_def Let_def)

lemma round_double_neg:
  "q < 0 \<Longrightarrow> round_double q =
     (if pow2 1024 \<le> round_magnitude (- q) then NInf else Fin (- round_magnitude (- q)))"
  by (simp add: round_double_def Let_def)

lemma round_double_minus: "round_double (- q) = fneg (round_double q)"
proof -
  consider "q = 0" | "0 < q" | "q < 0" by linarith
  then show ?thesis
  proof cases
    case 1
    then show ?thesis by (simp add: round_double_zero)
  next
    case 2
    then show ?thesis by (simp add: round_double_pos round_double_neg)
  next
    case 3
    then show ?thesis by (simp add: round_double_pos round_double_neg)
  qed
qed

lemma py_le_fneg: "py_le (fneg x) (fneg y) \<longleftrightarrow> py_le y x"
  by (cases x; cases y) simp_all

lemma py_le_refl: "x \<noteq> NaN \<Longrightarrow> py_le x x"
  by (cases x) simp_all

lemma py_le_trans: "py_le x y \<Longrightarrow> py_le y z \<Longrightarrow> py_le x z"
  by (cases x; cases y; cases z) simp_all

lemma round_double_not_NaN: "round_double q \<noteq> NaN"
  by (simp add: round_double_def Let_def)

lemma round_double_nonneg: "0 \<le> q \<Longrightarrow> py_le (Fin 0) (round_double q)"
  using round_magnitude_nonneg [of q]
  by (cases "q = 0") (simp_all add: round_double_zero round_double_pos)

lemma round_double_mono_pos:
  assumes "0 < q" "q \<le> q'"
  shows "py_le (round_double q) (round_double q')"
proof -
  from assms have "0 < q'" by simp
  with assms round_magnitude_mono [OF assms] show ?thesis
    by (simp add: round_double_pos)
qed

lemma round_double_mono:
  assumes "q \<le> q'"
  shows "py_le (round_double q) (round_double q')"
proof -
  consider "0 < q" | "q \<le> 0" "0 \<le> q'" | "q' < 0" by linarith
  then show ?thesis
  proof cases
    case 1
    then show ?thesis using assms by (rule round_double_mono_pos)
  next
    case 2
    from 2(1) have "py_le (Fin 0) (round_double (- q))" by (intro round_double_nonneg) simp
    then have "py_le (fneg (Fin 0)) (fneg (round_double q))"
      by (simp add: round_double_minus)
    then have "py_le (round_double q) (Fin 0)" by (simp only: py_le_fneg)
    moreover from 2(2) have "py_le (Fin 0) (round_double q')" by (rule round_double_nonneg)
    ultimately show ?thesis by (rule py_le_trans)
  next
    case 3
    with assms have "0 < - q'" "- q' \<le> - q" by simp_all
    then have "py_le (round_double (- q')) (round_double (- q))" by (rule round_double_mono_pos)
    then show ?thesis by (simp add: round_double_minus py_le_fneg)
  qed
qed

lemma round_double_exact_pos:
  assumes "0 < m" "m < 2 ^ 53" "- 1074 \<le> e" "e \<le> 971"
  shows "round_double (of_int m * pow2 e) = Fin (of_int m * pow2 e)"
proof -
  let ?a = "of_int m * pow2 e :: rat"
  have pos: "0 < ?a" using assms(1) pow2_pos [of e] by simp
  have rm: "round_magnitude ?a = ?a" using assms(1-3) by (rule round_magnitude_exact)
  have "(of_int m :: rat) < of_int (2 ^ 53)" using assms(2) by (simp only: of_int_less_iff)
  then have "?a < 2 ^ 53 * pow2 e" using pow2_pos [of e] by simp
  also have "\<dots> = pow2 (e + 53)" using pow2_nat [of 53] by (simp add: pow2_add)
  also have "\<dots> \<le> pow2 1024" using assms(4) by (simp add: pow2_le_iff)
  finally have "\<not> pow2 1024 \<le> ?a" by simp
  with pos rm show ?thesis by (simp only: round_double_pos if_False)
qed

lemma round_double_exact:
  assumes "\<bar>m\<bar> < 2 ^ 53" "- 1074 \<le> e" "e \<le> 971"
  shows "round_double (of_int m * pow2 e) = Fin (of_int m * pow2 e)"
proof -
  consider "m = 0" | "0 < m" | "m < 0" by linarith
  then show ?thesis
  proof cases
    case 1
    then show ?thesis by (simp add: round_double_zero)
  next
    case 2
    with assms show ?thesis by (intro round_double_exact_pos) simp_all
  next
    case 3
    with assms have "round_double (of_int (- m) * pow2 e) = Fin (of_int (- m) * pow2 e)"
      by (intro round_double_exact_pos) simp_all
    then have "fneg (round_double (of_int m * pow2 e)) = Fin (- (of_int m * pow2 e))"
      using round_double_minus [of "of_int m * pow2 e"] by simp
    then show ?thesis by (cases "round_double (of_int m * pow2 e)") simp_all
  qed
qed

lemma round_double_int_exact:
  assumes "\<bar>i\<bar> < 2 ^ 53"
  shows "round_double (of_int i) = Fin (of_int i)"
  using round_double_exact [OF assms, of 0] by (simp add: pow2_def)

lemma round_double_finite:
  assumes "\<bar>q\<bar> \<le> pow2 k" "- 1074 \<le> k" "k < 1024"
  shows "\<exists>r. round_double q = Fin r \<and> \<bar>r\<bar> \<le> pow2 k"
proof -
  have one: "round_magnitude (pow2 k) = pow2 k"
    using round_magnitude_exact [of 1 k] assms(2) by simp
  have lt: "pow2 k < pow2 1024" using assms(3) by (simp add: pow2_less_iff)
  have bound: "round_magnitude a \<le> pow2 k \<and> 0 \<le> round_magnitude a" if "0 < a" "a \<le> pow2 k" for a
    using round_magnitude_mono [OF that] round_magnitude_nonneg [OF that(1)] by (simp add: one)
  consider "q = 0" | "0 < q" | "q < 0" by linarith
  then show ?thesis
  proof cases
    case 1
    then show ?thesis using pow2_pos [of k] by (simp add: round_double_zero)
  next
    case 2
    with assms(1) bound [of q] lt show ?thesis by (simp add: round_double_pos)
  next
    case 3
    with assms(1) bound [of "- q"] lt show ?thesis by (simp add: round_double_neg)
  qed
qed

lemma float_of_int_total:
  assumes "0 \<le> i" "i < 2 ^ 63"
  shows "\<exists>r. float_of_int i = Inr (Fin r) \<and> 0 \<le> r \<and> (1 \<le> i \<longrightarrow> 1 \<le> r)"
proof -
  have "\<bar>of_int i :: rat\<bar> \<le> of_int (2 ^ 63)" using assms by (simp only: of_int_abs [symmetric] of_int_le_iff)
  also have "\<dots> = pow2 63" using pow2_nat [of 63] by simp
  finally obtain r where r: "round_double (of_int i) = Fin r"
    using round_double_finite [of "of_int i" 63] by auto
  have "py_le (Fin 0) (round_double (of_int i))" using assms(1) by (intro round_double_nonneg) simp
  then have r0: "0 \<le> r" by (simp add: r)
  have "1 \<le> r" if "1 \<le> i"
  proof -
    from that have "(1 :: rat) \<le> of_int i" by simp
    then have "py_le (round_double 1) (round_double (of_int i))" by (rule round_double_mono)
    moreover have "round_double 1 = Fin 1" using round_double_int_exact [of 1] by simp
    ultimately show ?thesis by (simp add: r)
  qed
  with r r0 show ?thesis by (simp add: float_of_int_def)
qed

lemma float_of_int_exact:
  assumes "\<bar>i\<bar> < 2 ^ 53"
  shows "float_of_int i = Inr (Fin (of_int i))"
  using round_double_int_exact [OF assms] by (simp add: float_of_int_def)

section \<open>Facts about format detection and decoding\<close>

lemma length_groups4: "length (groups4 xs) = length xs div 4"
  by (induction xs rule: groups4.induct) simp_all

lemma length_groups2: "length (groups2 xs) = length xs div 2"
  by (induction xs rule: groups2.induct) simp_all

lemma score_step:
  "(py_ne x PInf \<and> py_ne x NInf \<and> \<not> py_ne x x) \<and> py_lt (Fin (- 1000)) x \<and> py_lt x (Fin 1000)
     \<longleftrightarrow> plausible x"
  by (cases x) (simp_all add: py_ne_def plausible_def)

lemma score_loop_eq: "score_loop arr k = k + plausible_count arr"
proof (induction arr arbitrary: k)
  case Nil
  then show ?case by (simp add: plausible_count_def)
next
  case (Cons x arr)
  show ?case
  proof (cases "plausible x")
    case True
    then have "py_ne x PInf \<and> py_ne x NInf \<and> \<not> py_ne x x"
      "py_lt (Fin (- 1000)) x \<and> py_lt x (Fin 1000)"
      using score_step [of x] by blast+
    then have "score_loop (x # arr) k = score_loop arr (k + 1)" by simp
    with True show ?thesis by (simp add: Cons.IH plausible_count_def)
  next
    case False
    then have "\<not> ((py_ne x PInf \<and> py_ne x NInf \<and> \<not> py_ne x x) \<and>
               py_lt (Fin (- 1000)) x \<and> py_lt x (Fin 1000))"
      using score_step [of x] by blast
    then have "score_loop (x # arr) k = score_loop arr k" by auto
    with False show ?thesis by (simp add: Cons.IH plausible_count_def)
  qed
qed

lemma score_float_array_eq: "score_float_array arr = plausible_count arr"
  by (simp add: score_float_array_def score_loop_eq)

lemma decode_float32:
  assumes "length data mod 4 = 0" "0 < length data"
  shows "decode data =
    Inr (int (length data) div 4,
         (if plausible_count (map (\<lambda>g. float32_of_bits (le_bits g)) (groups4 data))
               \<le> plausible_count (map (\<lambda>g. float32_of_bits (be_bits g)) (groups4 data))
          then (map PyFloat (map (\<lambda>g. float32_of_bits (be_bits g)) (groups4 data)), ''float32_be'')
          else (map PyFloat (map (\<lambda>g. float32_of_bits (le_bits g)) (groups4 data)), ''float32_le'')))"
proof -
  from assms(1) have m: "int (length data) mod 4 = 0" by presburger
  then have len: "int (length data) = 4 * max 0 (int (length data) div 4)" by presburger
  show ?thesis
    using assms(2) m len
    by (simp add: decode_def Let_def unpack_f_le_def unpack_f_be_def bind_result_def
        score_float_array_eq)
qed

lemma decode_int16:
  assumes "length data mod 4 \<noteq> 0" "length data mod 2 = 0"
  shows "decode data =
    Inr (int (length data) div 2, map PyInt (map (\<lambda>g. int (le_bits g)) (groups2 data)), ''int16'')"
proof -
  from assms(1) have m4: "int (length data) mod 4 \<noteq> 0" by presburger
  from assms(2) have m2: "int (length data) mod 2 = 0" by presburger
  from assms have pos: "0 < length data" by (cases "length data = 0") simp_all
  from m2 have len: "int (length data) = 2 * max 0 (int (length data) div 2)" by presburger
  show ?thesis
    using pos m4 m2 len
    by (simp add: decode_def Let_def unpack_H_le_def bind_result_def)
qed

lemma decode_bytes:
  assumes "length data mod 2 \<noteq> 0 \<or> length data = 0"
  shows "decode data = Inr (int (length data), map (\<lambda>b. PyInt (uint b)) data, ''bytes'')"
proof -
  from assms have "(int (length data) mod 2 \<noteq> 0 \<and> int (length data) mod 4 \<noteq> 0) \<or> length data = 0"
    by presburger
  then show ?thesis by (auto simp: decode_def Let_def)
qed

section \<open>Facts about the wavelength axis\<close>

lemma bind_result_Inr: "bind_result (Inr x) f = f x"
  by (simp add: bind_result_def)

lemma bind_result_Inl: "bind_result (Inl e) f = Inl e"
  by (simp add: bind_result_def)

lemma map_result_map:
  "(\<And>x. x \<in> set xs \<Longrightarrow> f x = Inr (g x)) \<Longrightarrow> map_result f xs = Inr (map g xs)"
  by (induction xs) (simp_all add: bind_result_Inr)

lemma py_range_set: "i \<in> set (py_range n) \<longleftrightarrow> 0 \<le> i \<and> i < n"
proof
  assume "i \<in> set (py_range n)"
  then show "0 \<le> i \<and> i < n" by (auto simp: py_range_def)
next
  assume "0 \<le> i \<and> i < n"
  then have "nat i < nat n" "i = int (nat i)" by simp_all
  then show "i \<in> set (py_range n)" unfolding py_range_def by (metis atLeastLessThan_iff imageI set_map set_upt zero_le)
qed

lemma length_py_range: "length (py_range n) = nat n"
  by (simp add: py_range_def)

lemma nth_py_range: "i < nat n \<Longrightarrow> py_range n ! i = int i"
  by (simp add: py_range_def)

lemma float_of_int_float_of:
  assumes "0 \<le> i" "i < 2 ^ 63"
  shows "float_of_int i = Inr (float_of i)"
  using float_of_int_total [OF assms]
  by (auto simp: float_of_def float_of_int_def split: pyfloat.splits)

lemma float_of_pos:
  assumes "1 \<le> i" "i < 2 ^ 63"
  shows "\<exists>r. float_of i = Fin r \<and> 1 \<le> r"
proof -
  from assms have "0 \<le> i" by simp
  from float_of_int_total [OF this assms(2)] assms(1) show ?thesis
    by (auto simp: float_of_def float_of_int_def split: pyfloat.splits)
qed

lemma float_of_0: "float_of 0 = Fin 0"
  by (simp add: float_of_def round_double_zero)

lemma axis_points_float:
  assumes "n \<le> 2 ^ 63"
  shows "axis_points start_wl (PyFloat s) n =
           Inr (map (\<lambda>i. PyFloat (spec_wavelength start_wl s i)) (py_range n))"
  unfolding axis_points_def
proof (rule map_result_map)
  fix i assume "i \<in> set (py_range n)"
  with assms have "0 \<le> i" "i < 2 ^ 63" by (simp_all add: py_range_set)
  then have "float_of_int i = Inr (float_of i)" by (rule float_of_int_float_of)
  then show "bind_result (int_times i (PyFloat s)) (float_plus start_wl) =
             Inr (PyFloat (spec_wavelength start_wl s i))"
    by (simp add: bind_result_Inr spec_wavelength_def)
qed

lemma axis_points_zero:
  "axis_points start_wl (PyInt 0) n =
     Inr (map (\<lambda>i. PyFloat (fadd start_wl (Fin 0))) (py_range n))"
  unfolding axis_points_def
proof (rule map_result_map)
  fix i :: int
  have "float_of_int 0 = Inr (Fin 0)" by (simp add: float_of_int_def round_double_zero)
  then show "bind_result (int_times i (PyInt 0)) (float_plus start_wl) =
             Inr (PyFloat (fadd start_wl (Fin 0)))"
    by (simp add: bind_result_Inr)
qed

lemma fdiv_total:
  assumes "y = Fin r" "r \<noteq> 0"
  shows "\<exists>s. fdiv x y = Inr s"
  using assms by (cases x) simp_all

lemma axis_step_float:
  assumes "1 < n" "n \<le> 2 ^ 63"
  shows "axis_step start_wl end_wl n = Inr (PyFloat (spec_step start_wl end_wl n))"
proof -
  from assms have k: "1 \<le> n - 1" "n - 1 < 2 ^ 63" by simp_all
  then have conv: "float_of_int (n - 1) = Inr (float_of (n - 1))"
    by (intro float_of_int_float_of) simp_all
  from float_of_pos [OF k] obtain r where r: "float_of (n - 1) = Fin r" "1 \<le> r" by blast
  then obtain s where s: "fdiv (fsub end_wl start_wl) (float_of (n - 1)) = Inr s"
    using fdiv_total [of "float_of (n - 1)" r "fsub end_wl start_wl"] by auto
  show ?thesis
    using assms(1) conv s
    by (simp add: axis_step_def float_div_int_def bind_result_Inr spec_step_def)
qed

lemma axis_step_zero: "n \<le> 1 \<Longrightarrow> axis_step start_wl end_wl n = Inr (PyInt 0)"
  by (simp add: axis_step_def)

lemma axis_endpoints_cases:
  assumes "1 \<le> n" "n \<le> 2 ^ 63"
  shows "axis_endpoints content p n =
     (case read_axis_range content p of
        (Some start_wl, Some end_wl) \<Rightarrow> Inr (start_wl, end_wl)
      | _ \<Rightarrow> Inr (Fin 0, float_of (n - 1)))"
proof -
  from assms have "float_of_int (n - 1) = Inr (float_of (n - 1))"
    by (intro float_of_int_float_of) simp_all
  then show ?thesis
    by (simp add: axis_endpoints_def bind_result_Inr split: prod.splits option.splits)
qed

lemma spec_wavelength_single:
  "spec_wavelength start_wl (Fin 0) 0 = fadd start_wl (Fin 0)"
  by (simp add: spec_wavelength_def float_of_0 round_double_zero)

lemma wavelengths_float32:
  assumes "startswith data_type ''float32''" "1 \<le> n" "n \<le> 2 ^ 63"
  shows "\<exists>start_wl end_wl.
           axis_endpoints content p n = Inr (start_wl, end_wl) \<and>
           wavelengths content p n data_type =
             Inr (map (\<lambda>i. PyFloat (spec_wavelength start_wl (spec_step start_wl end_wl n) i))
                    (py_range n))"
proof -
  obtain start_wl end_wl where ends: "axis_endpoints content p n = Inr (start_wl, end_wl)"
    using axis_endpoints_cases [OF assms(2,3), of content p]
    by (auto split: prod.splits option.splits)
  have "wavelengths content p n data_type =
          Inr (map (\<lambda>i. PyFloat (spec_wavelength start_wl (spec_step start_wl end_wl n) i))
                 (py_range n))"
  proof (cases "1 < n")
    case True
    then show ?thesis
      using assms(1,3) ends
      by (simp add: wavelengths_def bind_result_Inr axis_step_float axis_points_float)
  next
    case False
    with assms(2) have n: "n = 1" by simp
    have "py_range 1 = [0]" by (simp add: py_range_def)
    then show ?thesis
      using assms(1) ends
      by (simp add: n wavelengths_def bind_result_Inr axis_step_zero axis_points_zero
          spec_step_def spec_wavelength_single)
  qed
  with ends show ?thesis by blast
qed

lemma wavelengths_index:
  "\<not> startswith data_type ''float32'' \<Longrightarrow>
     wavelengths content p n data_type = Inr (map PyInt (py_range n))"
  by (simp add: wavelengths_def)

section \<open>Facts about the decoder\<close>

lemma startswith_labels:
  "startswith ''float32_be'' ''float32''" "startswith ''float32_le'' ''float32''"
  "\<not> startswith ''int16'' ''float32''" "\<not> startswith ''bytes'' ''float32''"
  by (simp_all add: startswith_def)

lemma decode_cases:
  "\<exists>n values data_type.
     decode data = Inr (n, values, data_type) \<and>
     length values = nat n \<and>
     nat n = (if length data mod 4 = 0 then length data div 4
              else if length data mod 2 = 0 then length data div 2 else length data) \<and>
     0 \<le> n \<and> n \<le> int (length data) \<and>
     data_type \<in> {''float32_be'', ''float32_le'', ''int16'', ''bytes''} \<and>
     (startswith data_type ''float32'' \<longleftrightarrow> length data mod 4 = 0 \<and> 0 < length data) \<and>
     (data_type = ''int16'' \<longleftrightarrow> length data mod 4 \<noteq> 0 \<and> length data mod 2 = 0) \<and>
     (data_type = ''bytes'' \<longleftrightarrow> length data mod 2 \<noteq> 0 \<or> length data = 0)"
proof -
  let ?L = "length data"
  have d4: "nat (int ?L div 4) = ?L div 4" and d2: "nat (int ?L div 2) = ?L div 2"
    by (simp_all add: nat_div_distrib)
  have le: "int ?L div 4 \<le> int ?L" "int ?L div 2 \<le> int ?L" "0 \<le> int ?L div 4" "0 \<le> int ?L div 2"
    by simp_all
  consider (f) "?L mod 4 = 0" "0 < ?L" | (i) "?L mod 4 \<noteq> 0" "?L mod 2 = 0"
    | (b) "?L mod 2 \<noteq> 0 \<or> ?L = 0"
    by (cases "?L = 0"; cases "?L mod 4 = 0"; cases "?L mod 2 = 0") simp_all
  then show ?thesis
  proof cases
    case f
    then have m2: "?L mod 2 = 0" by presburger
    from f have ne: "data \<noteq> []" by auto
    show ?thesis
    proof (cases "plausible_count (map (\<lambda>g. float32_of_bits (le_bits g)) (groups4 data))
               \<le> plausible_count (map (\<lambda>g. float32_of_bits (be_bits g)) (groups4 data))")
      case True
      with decode_float32 [OF f] have
        "decode data = Inr (int ?L div 4,
           map PyFloat (map (\<lambda>g. float32_of_bits (be_bits g)) (groups4 data)), ''float32_be'')"
        by simp
      then show ?thesis
        using f m2 ne d4 le by (simp add: length_groups4 startswith_labels)
    next
      case False
      with decode_float32 [OF f] have
        "decode data = Inr (int ?L div 4,
           map PyFloat (map (\<lambda>g. float32_of_bits (le_bits g)) (groups4 data)), ''float32_le'')"
        by simp
      then show ?thesis
        using f m2 ne d4 le by (simp add: length_groups4 startswith_labels)
    qed
  next
    case i
    from i have ne: "data \<noteq> []" by auto
    from decode_int16 [OF i] show ?thesis
      using i ne d2 le by (simp add: length_groups2 startswith_labels)
  next
    case b
    then have "?L mod 4 \<noteq> 0 \<or> ?L = 0" by presburger
    with b decode_bytes [OF b] show ?thesis
      by (auto simp: startswith_labels)
  qed
qed

lemma decode_total: "\<exists>n vals data_type. decode data = Inr (n, vals, data_type)"
  using decode_cases [of data] by (elim exE conjE) (intro exI)

lemma decode_result:
  assumes "decode data = Inr (n, vals, data_type)"
  shows "length vals = nat n"
    and "nat n = (if length data mod 4 = 0 then length data div 4
                  else if length data mod 2 = 0 then length data div 2 else length data)"
    and "0 \<le> n" and "n \<le> int (length data)"
    and "data_type \<in> {''float32_be'', ''float32_le'', ''int16'', ''bytes''}"
    and "startswith data_type ''float32'' \<longleftrightarrow> length data mod 4 = 0 \<and> 0 < length data"
    and "data_type = ''int16'' \<longleftrightarrow> length data mod 4 \<noteq> 0 \<and> length data mod 2 = 0"
    and "data_type = ''bytes'' \<longleftrightarrow> length data mod 2 \<noteq> 0 \<or> length data = 0"
proof -
  from decode_cases [of data] obtain n' vals' data_type' where
    d: "decode data = Inr (n', vals', data_type')"
    and r: "length vals' = nat n'"
      "nat n' = (if length data mod 4 = 0 then length data div 4
                  else if length data mod 2 = 0 then length data div 2 else length data)"
      "0 \<le> n'" "n' \<le> int (length data)"
      "data_type' \<in> {''float32_be'', ''float32_le'', ''int16'', ''bytes''}"
      "startswith data_type' ''float32'' \<longleftrightarrow> length data mod 4 = 0 \<and> 0 < length data"
      "data_type' = ''int16'' \<longleftrightarrow> length data mod 4 \<noteq> 0 \<and> length data mod 2 = 0"
      "data_type' = ''bytes'' \<longleftrightarrow> length data mod 2 \<noteq> 0 \<or> length data = 0"
    by (elim exE conjE) (rule that; assumption)
  from d assms have eq: "n' = n" "vals' = vals" "data_type' = data_type" by simp_all
  show "length vals = nat n"
    and "nat n = (if length data mod 4 = 0 then length data div 4
                  else if length data mod 2 = 0 then length data div 2 else length data)"
    and "0 \<le> n" and "n \<le> int (length data)"
    and "data_type \<in> {''float32_be'', ''float32_le'', ''int16'', ''bytes''}"
    and "startswith data_type ''float32'' \<longleftrightarrow> length data mod 4 = 0 \<and> 0 < length data"
    and "data_type = ''int16'' \<longleftrightarrow> length data mod 4 \<noteq> 0 \<and> length data mod 2 = 0"
    and "data_type = ''bytes'' \<longleftrightarrow> length data mod 2 \<noteq> 0 \<or> length data = 0"
    using r unfolding eq by blast+
qed

lemma float32_count:
  assumes "decode data = Inr (n, vals, data_type)" "startswith data_type ''float32''"
  shows "1 \<le> n"
proof -
  from decode_result(6) [OF assms(1)] assms(2)
  have fl: "length data mod 4 = 0" "0 < length data" by simp_all
  then have "0 < length data div 4" by presburger
  with decode_result(2) [OF assms(1)] fl have "0 < nat n" by simp
  then show ?thesis by simp
qed

lemma count_bound:
  assumes "length content \<le> sys_maxsize" "decode (data_bytes content) = Inr (n, vals, data_type)"
  shows "n \<le> 2 ^ 63"
proof -
  have "length (data_bytes content) \<le> length content" by (simp add: data_bytes_eq)
  with decode_result(4) [OF assms(2)] assms(1) show ?thesis by (simp add: sys_maxsize_def)
qed

lemma process_result:
  assumes "length content \<le> sys_maxsize"
      and "decode (data_bytes content) = Inr (n, vals, data_type)"
  shows "\<exists>wls. wavelengths content (pat_idx content) n data_type = Inr wls \<and>
               length wls = nat n \<and>
               process_spectro_file content = Inr (data_type, zip wls vals)"
proof -
  have bound: "n \<le> 2 ^ 63" using assms by (rule count_bound)
  obtain wls where wls: "wavelengths content (pat_idx content) n data_type = Inr wls"
    "length wls = nat n"
  proof (cases "startswith data_type ''float32''")
    case True
    with assms(2) have "1 \<le> n" by (rule float32_count)
    from wavelengths_float32 [OF True this bound, of content "pat_idx content"] that
    show ?thesis by (auto simp: length_py_range)
  next
    case False
    from wavelengths_index [OF False, of content "pat_idx content" n] that
    show ?thesis by (auto simp: length_py_range)
  qed
  then show ?thesis
    using assms(2) by (simp add: process_spectro_file_def bind_result_Inr)
qed

section \<open>Facts about reading the axis range\<close>

lemma unpack_one_f_be_4:
  assumes "length bs = 4"
  shows "unpack_one_f_be bs = Inr (float32_of_bits (be_bits bs))"
proof -
  from assms obtain a b c d where "bs = [a, b, c, d]"
    by (cases bs; cases "tl bs"; cases "tl (tl bs)"; cases "tl (tl (tl bs))") auto
  then show ?thesis by (simp add: unpack_one_f_be_def unpack_f_be_def bind_result_def)
qed

lemma unpack_one_f_be_bad: "length bs \<noteq> 4 \<Longrightarrow> unpack_one_f_be bs = Inl StructError"
  by (simp add: unpack_one_f_be_def unpack_f_be_def bind_result_def)

lemma length_py_slice:
  "length (py_slice xs a b) = slice_bound (length xs) b - slice_bound (length xs) a"
  by (auto simp: py_slice_def Let_def slice_bound_def)

lemma py_slice_inside:
  assumes "0 \<le> a" "a \<le> b" "b \<le> int (length xs)"
  shows "py_slice xs a b = take (nat (b - a)) (drop (nat a) xs)"
proof -
  from assms have "nat a \<le> length xs" "nat b \<le> length xs" "nat b - nat a = nat (b - a)"
    by linarith+
  with assms show ?thesis by (simp add: py_slice_def slice_bound_def Let_def min_def)
qed

lemma read_axis_range_inside:
  assumes "8 \<le> p" "p \<le> int (length content)"
  shows "read_axis_range content p =
     (Some (float32_of_bits (be_bits (take 4 (drop (nat p - 8) content)))),
      Some (float32_of_bits (be_bits (take 4 (drop (nat p - 4) content)))))"
proof -
  have s1: "py_slice content (p - 8) (p - 4) = take 4 (drop (nat p - 8) content)"
    using assms by (simp add: py_slice_inside nat_diff_distrib)
  have s2: "py_slice content (p - 4) p = take 4 (drop (nat p - 4) content)"
    using assms by (simp add: py_slice_inside nat_diff_distrib)
  have l1: "length (take 4 (drop (nat p - 8) content)) = 4" using assms by simp
  have l2: "length (take 4 (drop (nat p - 4) content)) = 4" using assms by simp
  from assms(1) have "p \<noteq> - 1" by simp
  then show ?thesis
    by (simp add: read_axis_range_def s1 s2 unpack_one_f_be_4 [OF l1] unpack_one_f_be_4 [OF l2]
        bind_result_Inr)
qed

lemma read_axis_range_wrapped:
  assumes "0 \<le> p" "p < 8" "p + 8 \<le> int (length content)"
  shows "read_axis_range content p = (None, None)"
proof (cases "p < 4")
  case True
  have "length (py_slice content (p - 4) p) = 0"
    using assms True by (simp add: length_py_slice slice_bound_def)
  then have "unpack_one_f_be (py_slice content (p - 4) p) = Inl StructError"
    by (intro unpack_one_f_be_bad) simp
  then show ?thesis
    by (cases "unpack_one_f_be (py_slice content (p - 8) (p - 4))")
       (simp_all add: read_axis_range_def bind_result_def)
next
  case False
  have "length (py_slice content (p - 8) (p - 4)) = 0"
    using assms False by (simp add: length_py_slice slice_bound_def)
  then have "unpack_one_f_be (py_slice content (p - 8) (p - 4)) = Inl StructError"
    by (intro unpack_one_f_be_bad) simp
  then show ?thesis by (simp add: read_axis_range_def bind_result_def)
qed

section \<open>Facts about the example buffers\<close>

lemma round_double_numeral:
  "(numeral k :: int) < 2 ^ 53 \<Longrightarrow> round_double (numeral k) = Fin (numeral k)"
  using round_double_int_exact [of "numeral k"] by simp

lemma round_double_one: "round_double 1 = Fin 1"
  using round_double_int_exact [of 1] by simp

lemma float_of_one: "float_of 1 = Fin 1"
  by (simp add: float_of_def round_double_one)

lemma list2_nth: "length xs = 2 \<Longrightarrow> xs = [xs ! 0, xs ! 1]"
  by (cases xs; cases "tl xs") auto

lemma example_axis_length: "length example_axis \<le> sys_maxsize"
  by (simp add: example_axis_def pattern_def sys_maxsize_def)

lemma example_axis_pat_idx: "pat_idx example_axis = 8"
  unfolding example_axis_def by code_simp

lemma example_axis_data:
  "data_bytes example_axis = [0x3F, 0x80, 0x00, 0x00, 0x40, 0x00, 0x00, 0x00]"
  unfolding example_axis_def by code_simp

lemma example_axis_be:
  "unpack_f_be 2 [0x3F, 0x80, 0x00, 0x00, 0x40, 0x00, 0x00, 0x00] = Inr [Fin 1, Fin 2]"
  by (simp add: unpack_f_be_def float32_of_bits_def pow2_def)

lemma example_axis_le:
  "unpack_f_le 2 [0x3F, 0x80, 0x00, 0x00, 0x40, 0x00, 0x00, 0x00]
     = Inr [Fin (32831 * pow2 (- 149)), Fin (64 * pow2 (- 149))]"
  by (simp add: unpack_f_le_def float32_of_bits_def le_bits_def)

lemma example_axis_decode:
  "decode (data_bytes example_axis) = Inr (2, [PyFloat (Fin 1), PyFloat (Fin 2)], ''float32_be'')"
  by (simp add: example_axis_data decode_def unpack_f_le_def unpack_f_be_def bind_result_def
      score_float_array_def float32_of_bits_def pow2_def le_bits_def py_ne_def Let_def)

lemma example_axis_endpoints: "axis_endpoints example_axis 8 2 = Inr (Fin 400, Fin 700)"
  by (simp add: axis_endpoints_def read_axis_range_def py_slice_def slice_bound_def
      unpack_one_f_be_def unpack_f_be_def bind_result_def float32_of_bits_def pow2_def
      example_axis_def pattern_def Let_def)

lemma example_axis_step: "spec_step (Fin 400) (Fin 700) 2 = Fin 300"
  by (simp add: spec_step_def fsub_def float_of_one round_double_numeral)

lemma example_axis_wavelength_0: "spec_wavelength (Fin 400) (Fin 300) 0 = Fin 400"
  by (simp add: spec_wavelength_def float_of_0 round_double_zero round_double_numeral)

lemma example_axis_wavelength_1: "spec_wavelength (Fin 400) (Fin 300) 1 = Fin 700"
  by (simp add: spec_wavelength_def float_of_one round_double_numeral)

lemma example_no_axis_length: "length example_no_axis \<le> sys_maxsize"
  by (simp add: example_no_axis_def pattern_def sys_maxsize_def)

lemma example_no_axis_pat_idx: "pat_idx example_no_axis = 0"
  unfolding example_no_axis_def by code_simp

lemma example_no_axis_data: "data_bytes example_no_axis = [0x3F, 0x80, 0x00, 0x00]"
  unfolding example_no_axis_def by code_simp

lemma example_no_axis_decode:
  "decode (data_bytes example_no_axis) = Inr (1, [PyFloat (Fin 1)], ''float32_be'')"
  by (simp add: example_no_axis_data decode_def unpack_f_le_def unpack_f_be_def bind_result_def
      score_float_array_def float32_of_bits_def pow2_def le_bits_def py_ne_def Let_def)

lemma example_int16_length: "length example_int16 \<le> sys_maxsize"
  by (simp add: example_int16_def pattern_def sys_maxsize_def)

lemma example_int16_data: "data_bytes example_int16 = [0x01, 0x00, 0x02, 0x00, 0x03, 0x00]"
  unfolding example_int16_def by code_simp

section \<open>Facts about the order of the wavelengths\<close>

lemma float32_of_bits_bound:
  assumes "float32_of_bits w = Fin v"
  shows "\<bar>v\<bar> < pow2 128"
proof -
  define e where "e = (w div 2 ^ 23) mod 256"
  define m where "m = w mod 2 ^ 23"
  have m: "m < 2 ^ 23" by (simp add: m_def)
  have e: "e < 256" by (simp add: e_def)
  from assms have e255: "e \<noteq> 255"
    by (auto simp: float32_of_bits_def Let_def e_def split: if_splits)
  define a :: rat where
    "a = (if e = 0 then of_int (int m) * pow2 (- 149) else of_int (int (2 ^ 23 + m)) * pow2 (int e - 150))"
  from assms e255 have v: "v = a \<or> v = - a"
    by (auto simp: float32_of_bits_def Let_def e_def m_def a_def split: if_splits)
  have a0: "0 \<le> a" using pow2_pos [of "- 149"] pow2_pos [of "int e - 150"] by (simp add: a_def)
  have "a < pow2 128"
  proof (cases "e = 0")
    case True
    have "of_int (int m) * pow2 (- 149) \<le> (of_int (2 ^ 23) :: rat) * pow2 (- 149)"
      using m pow2_pos [of "- 149"] by (intro mult_right_mono) simp_all
    also have "\<dots> = pow2 23 * pow2 (- 149)" using pow2_nat [of 23] by simp
    also have "\<dots> = pow2 (- 126)" by (simp add: pow2_add [symmetric])
    also have "\<dots> < pow2 128" by (simp add: pow2_less_iff)
    finally show ?thesis using True by (simp add: a_def)
  next
    case False
    from e e255 have e254: "int e - 150 \<le> 104" by simp
    have "int (2 ^ 23 + m) < 2 ^ 24" using m by simp
    then have "(of_int (int (2 ^ 23 + m)) :: rat) < of_int (2 ^ 24)" by (simp only: of_int_less_iff)
    then have "of_int (int (2 ^ 23 + m)) * pow2 (int e - 150) < (of_int (2 ^ 24) :: rat) * pow2 (int e - 150)"
      using pow2_pos [of "int e - 150"] by (intro mult_strict_right_mono)
    also have "\<dots> = pow2 24 * pow2 (int e - 150)" using pow2_nat [of 24] by simp
    also have "\<dots> = pow2 (24 + (int e - 150))" by (simp only: pow2_add)
    also have "\<dots> \<le> pow2 128" using e254 by (simp add: pow2_le_iff)
    finally show ?thesis using False by (simp add: a_def)
  qed
  with v a0 show ?thesis by auto
qed

lemma unpack_one_f_be_Inr:
  assumes "unpack_one_f_be bs = Inr x"
  shows "x = float32_of_bits (be_bits bs)"
proof (cases "length bs = 4")
  case True
  with assms show ?thesis by (simp add: unpack_one_f_be_4)
next
  case False
  with assms show ?thesis by (simp add: unpack_one_f_be_bad)
qed

lemma read_axis_range_Some:
  assumes "read_axis_range content p = (Some x, Some y)"
  shows "\<exists>w1 w2. x = float32_of_bits w1 \<and> y = float32_of_bits w2"
proof -
  let ?a = "unpack_one_f_be (py_slice content (p - 8) (p - 4))"
  let ?b = "unpack_one_f_be (py_slice content (p - 4) p)"
  from assms have p: "p \<noteq> - 1" by (auto simp: read_axis_range_def)
  from assms p obtain x' where a: "?a = Inr x'"
    by (cases ?a) (simp_all add: read_axis_range_def bind_result_def)
  from assms p a obtain y' where b: "?b = Inr y'"
    by (cases ?b) (simp_all add: read_axis_range_def bind_result_def)
  from assms p a b have "x = x'" "y = y'" by (simp_all add: read_axis_range_def bind_result_def)
  with unpack_one_f_be_Inr [OF a] unpack_one_f_be_Inr [OF b] show ?thesis by blast
qed

lemma py_le_PInf: "x \<noteq> NaN \<Longrightarrow> py_le x PInf"
  by (cases x) simp_all

lemma py_le_NInf: "y \<noteq> NaN \<Longrightarrow> py_le NInf y"
  by (cases y) simp_all

lemma py_le_not_NaN: "py_le x y \<Longrightarrow> x \<noteq> NaN \<and> y \<noteq> NaN"
  by (cases x; cases y) simp_all

lemma fadd_Fin_mono:
  assumes "py_le x y"
  shows "py_le (fadd (Fin s) x) (fadd (Fin s) y)"
proof (cases x)
  case (Fin a)
  show ?thesis
  proof (cases y)
    case (Fin b)
    with \<open>x = Fin a\<close> assms have "s + a \<le> s + b" by simp
    then show ?thesis using \<open>x = Fin a\<close> Fin by (simp add: round_double_mono)
  next
    case PInf
    then show ?thesis using \<open>x = Fin a\<close> by (simp add: py_le_PInf round_double_not_NaN)
  next
    case NInf
    with \<open>x = Fin a\<close> assms show ?thesis by simp
  next
    case NaN
    with assms show ?thesis using py_le_not_NaN by blast
  qed
next
  case PInf
  with assms show ?thesis by (cases y) simp_all
next
  case NInf
  with assms show ?thesis
    by (cases y) (simp_all add: py_le_NInf round_double_not_NaN)
next
  case NaN
  with assms show ?thesis by simp
qed

lemma float_of_range:
  assumes "0 \<le> i" "i < 2 ^ 63"
  shows "\<exists>a. float_of i = Fin a \<and> 0 \<le> a"
  using float_of_int_total [OF assms] by (auto simp: float_of_def float_of_int_def split: pyfloat.splits)

lemma float_of_mono:
  assumes "0 \<le> i" "i \<le> j" "j < 2 ^ 63"
  obtains a b where "float_of i = Fin a" "float_of j = Fin b" "0 \<le> a" "a \<le> b"
proof -
  from assms have "0 \<le> j" "i < 2 ^ 63" by simp_all
  from float_of_range [OF assms(1) this(2)] float_of_range [OF this(1) assms(3)]
  obtain a b where ab: "float_of i = Fin a" "0 \<le> a" "float_of j = Fin b" by blast
  from assms(2) have "(of_int i :: rat) \<le> of_int j" by simp
  then have "py_le (float_of i) (float_of j)" unfolding float_of_def by (rule round_double_mono)
  with ab have "a \<le> b" by simp
  with ab show ?thesis using that by blast
qed

lemma spec_wavelength_mono:
  assumes "0 \<le> st" "0 \<le> i" "i \<le> j" "j < 2 ^ 63"
  shows "py_le (spec_wavelength (Fin s) (Fin st) i) (spec_wavelength (Fin s) (Fin st) j)"
proof -
  from float_of_mono [OF assms(2-4)] obtain a b where
    ab: "float_of i = Fin a" "float_of j = Fin b" "a \<le> b" by blast
  from ab(3) assms(1) have "a * st \<le> b * st" by (rule mult_right_mono)
  then have "py_le (fmul (Fin a) (Fin st)) (fmul (Fin b) (Fin st))"
    by (simp add: round_double_mono)
  then show ?thesis unfolding spec_wavelength_def ab by (rule fadd_Fin_mono)
qed

lemma spec_wavelength_antimono:
  assumes "st \<le> 0" "0 \<le> i" "i \<le> j" "j < 2 ^ 63"
  shows "py_le (spec_wavelength (Fin s) (Fin st) j) (spec_wavelength (Fin s) (Fin st) i)"
proof -
  from float_of_mono [OF assms(2-4)] obtain a b where
    ab: "float_of i = Fin a" "float_of j = Fin b" "a \<le> b" by blast
  from ab(3) assms(1) have "b * st \<le> a * st" by (rule mult_right_mono_neg)
  then have "py_le (fmul (Fin b) (Fin st)) (fmul (Fin a) (Fin st))"
    by (simp add: round_double_mono)
  then show ?thesis unfolding spec_wavelength_def ab by (rule fadd_Fin_mono)
qed

lemma spec_step_finite:
  assumes "\<bar>s\<bar> < pow2 128" "\<bar>e\<bar> < pow2 128" "n \<le> 2 ^ 63"
  shows "\<exists>st. spec_step (Fin s) (Fin e) n = Fin st \<and> (s \<le> e \<longrightarrow> 0 \<le> st) \<and> (e \<le> s \<longrightarrow> st \<le> 0)"
proof (cases "1 < n")
  case False
  then show ?thesis by (simp add: spec_step_def)
next
  case True
  have "\<bar>e - s\<bar> \<le> \<bar>e\<bar> + \<bar>s\<bar>" by simp
  also have "\<dots> \<le> pow2 128 + pow2 128" using assms(1,2) by simp
  also have "\<dots> = pow2 129" using pow2_add [of 128 1] by (simp add: pow2_def)
  finally obtain d where d: "round_double (e - s) = Fin d" "\<bar>d\<bar> \<le> pow2 129"
    using round_double_finite [of "e - s" 129] by auto
  have dpos: "0 \<le> d" if "s \<le> e"
    using round_double_nonneg [of "e - s"] that by (simp add: d)
  have dneg: "d \<le> 0" if "e \<le> s"
  proof -
    from that have "py_le (round_double (e - s)) (round_double 0)" by (intro round_double_mono) simp
    then show ?thesis by (simp add: d round_double_zero)
  qed
  from True assms(3) have "1 \<le> n - 1" "n - 1 < 2 ^ 63" by simp_all
  from float_of_pos [OF this] obtain r where r: "float_of (n - 1) = Fin r" "1 \<le> r" by blast
  have "1 * \<bar>d\<bar> \<le> r * \<bar>d\<bar>" using r(2) by (intro mult_right_mono) simp_all
  then have "\<bar>d / r\<bar> \<le> \<bar>d\<bar>" using r(2) by (simp add: field_simps)
  with d(2) have "\<bar>d / r\<bar> \<le> pow2 129" by simp
  then obtain st where st: "round_double (d / r) = Fin st"
    using round_double_finite [of "d / r" 129] by auto
  have step: "spec_step (Fin s) (Fin e) n = Fin st"
    using True r d st by (simp add: spec_step_def fsub_def)
  have "0 \<le> st" if "s \<le> e"
  proof -
    from dpos [OF that] r(2) have "0 \<le> d / r" by simp
    from round_double_nonneg [OF this] show ?thesis by (simp add: st)
  qed
  moreover have "st \<le> 0" if "e \<le> s"
  proof -
    from dneg [OF that] r(2) have "d / r \<le> 0" by (simp add: field_simps)
    then have "py_le (round_double (d / r)) (round_double 0)" by (rule round_double_mono)
    then show ?thesis by (simp add: st round_double_zero)
  qed
  ultimately show ?thesis using step by blast
qed

lemma float32_of_bits_exact:
  assumes "float32_of_bits w = Fin v"
  shows "round_double v = Fin v"
proof -
  define e where "e = (w div 2 ^ 23) mod 256"
  define m where "m = w mod 2 ^ 23"
  have m: "m < 2 ^ 23" by (simp add: m_def)
  have e: "e < 256" by (simp add: e_def)
  from assms have e255: "e \<noteq> 255"
    by (auto simp: float32_of_bits_def Let_def e_def split: if_splits)
  define k :: int where "k = (if e = 0 then int m else int (2 ^ 23 + m))"
  define p :: int where "p = (if e = 0 then - 149 else int e - 150)"
  from assms e255 have v: "v = of_int k * pow2 p \<or> v = of_int (- k) * pow2 p"
    by (auto simp: float32_of_bits_def Let_def e_def m_def k_def p_def split: if_splits)
  have k: "\<bar>k\<bar> < 2 ^ 53" "\<bar>- k\<bar> < 2 ^ 53" using m by (auto simp: k_def)
  have p: "- 1074 \<le> p" "p \<le> 971" using e by (auto simp: p_def)
  from v show ?thesis
  proof
    assume "v = of_int k * pow2 p"
    with round_double_exact [OF k(1) p] show ?thesis by simp
  next
    assume "v = of_int (- k) * pow2 p"
    with round_double_exact [OF k(2) p] show ?thesis by simp
  qed
qed

lemma spec_wavelength_first:
  assumes "round_double s = Fin s"
  shows "spec_wavelength (Fin s) (Fin st) 0 = Fin s"
  using assms by (simp add: spec_wavelength_def float_of_0 round_double_zero)

lemma process_float32:
  assumes "length content \<le> sys_maxsize"
      and "decode (data_bytes content) = Inr (n, vals, data_type)"
      and "startswith data_type ''float32''"
      and "axis_endpoints content (pat_idx content) n = Inr (start_wl, end_wl)"
  shows "process_spectro_file content =
           Inr (data_type,
                zip (map PyFloat (map (spec_wavelength start_wl (spec_step start_wl end_wl n))
                                      (py_range n))) vals)"
proof -
  have bound: "n \<le> 2 ^ 63" using assms(1,2) by (rule count_bound)
  have n1: "1 \<le> n" using assms(2,3) by (rule float32_count)
  from wavelengths_float32 [OF assms(3) n1 bound, of content "pat_idx content"] assms(4)
  have "wavelengths content (pat_idx content) n data_type =
          Inr (map (\<lambda>i. PyFloat (spec_wavelength start_wl (spec_step start_wl end_wl n) i))
                 (py_range n))" by auto
  then show ?thesis
    using assms(2) by (simp add: process_spectro_file_def bind_result_Inr comp_def)
qed

lemma example_axis_range:
  "read_axis_range example_axis (pat_idx example_axis) = (Some (Fin 400), Some (Fin 700))"
  unfolding example_axis_pat_idx
  by (simp add: read_axis_range_def py_slice_def slice_bound_def
      unpack_one_f_be_def unpack_f_be_def bind_result_def float32_of_bits_def pow2_def
      example_axis_def pattern_def Let_def)

lemma example_inf_axis_length: "length example_inf_axis \<le> sys_maxsize"
  by (simp add: example_inf_axis_def pattern_def sys_maxsize_def)

lemma example_inf_axis_pat_idx: "pat_idx example_inf_axis = 8"
  unfolding example_inf_axis_def by code_simp

lemma example_inf_axis_data:
  "data_bytes example_inf_axis = [0x3F, 0x80, 0x00, 0x00, 0x40, 0x00, 0x00, 0x00]"
  unfolding example_inf_axis_def by code_simp

lemma example_inf_axis_decode:
  "decode (data_bytes example_inf_axis) = Inr (2, [PyFloat (Fin 1), PyFloat (Fin 2)], ''float32_be'')"
  using example_axis_decode by (simp add: example_inf_axis_data example_axis_data)

lemma example_inf_axis_range:
  "read_axis_range example_inf_axis (pat_idx example_inf_axis) = (Some NInf, Some (Fin 1))"
  unfolding example_inf_axis_pat_idx
  by (simp add: read_axis_range_def py_slice_def slice_bound_def
      unpack_one_f_be_def unpack_f_be_def bind_result_def float32_of_bits_def pow2_def
      example_inf_axis_def pattern_def Let_def)

lemma example_inf_axis_step: "spec_step NInf (Fin 1) 2 = PInf"
  by (simp add: spec_step_def fsub_def float_of_one signed_inf_def)

section \<open>Facts about scenario 1\<close>

lemma scenario_one_length: "length arb = 92 \<Longrightarrow> length (scenario_one arb) = 121"
  by (simp add: scenario_one_def pattern_def)

lemma scenario_one_provisional: "provisional_header_end (scenario_one arb) = 5"
proof -
  let ?c = "scenario_one arb"
  have w: "py_find ?c wav 0 = int 0"
    by (rule py_find_eqI) (simp_all add: occurs_at_def scenario_one_def wav_def)
  have n: "py_find ?c [0x00] (int 0) = int 4"
  proof (rule py_find_eqI)
    show "occurs_at [0x00] ?c 4" by (simp add: occurs_at_def scenario_one_def)
  next
    fix j :: nat assume "j < 4"
    then consider "j = 0" | "j = 1" | "j = 2" | "j = 3" by linarith
    then have "?c ! (j + 0) \<noteq> [0x00] ! 0"
      by cases (simp_all add: scenario_one_def)
    then show "\<not> occurs_at [0x00] ?c j" using occurs_at_nth [of "[0x00]" ?c j 0] by auto
  qed simp_all
  show ?thesis using w n by (simp add: provisional_header_end_def)
qed

lemma scenario_one_marker:
  assumes "length arb = 92"
  shows "occurs_at pattern (scenario_one arb) 97"
  using assms by (simp add: occurs_at_def scenario_one_def pattern_def)

lemma scenario_one_pat_idx:
  assumes "length arb = 92" "\<forall>j\<in>{5..<97}. \<not> occurs_at pattern (scenario_one arb) j"
  shows "pat_idx (scenario_one arb) = 97"
proof -
  have "py_find (scenario_one arb) pattern 5 = int 97"
  proof (rule py_find_eqI)
    show "occurs_at pattern (scenario_one arb) 97" using assms(1) by (rule scenario_one_marker)
  next
    fix j assume "nat 5 \<le> j" "j < 97"
    with assms(2) show "\<not> occurs_at pattern (scenario_one arb) j" by simp
  qed (simp_all add: pattern_def)
  then show ?thesis by (simp add: pat_idx_def scenario_one_provisional)
qed

lemma scenario_one_data:
  assumes "length arb = 92" "pat_idx (scenario_one arb) = 97"
  shows "header_end (scenario_one arb) = 105"
    and "data_bytes (scenario_one arb) =
          [0x43, 0xC8, 0x00, 0x00, 0x44, 0x2F, 0x00, 0x00, 0x3F, 0x80, 0x00, 0x00, 0x40, 0x00, 0x00, 0x00]"
proof -
  show h: "header_end (scenario_one arb) = 105"
    using assms(2) by (simp add: header_end_def pattern_def)
  show "data_bytes (scenario_one arb) =
          [0x43, 0xC8, 0x00, 0x00, 0x44, 0x2F, 0x00, 0x00, 0x3F, 0x80, 0x00, 0x00, 0x40, 0x00, 0x00, 0x00]"
  proof -
    have "data_bytes (scenario_one arb) = drop 105 (scenario_one arb)"
      by (simp add: data_bytes_eq h)
    also have "\<dots> = [0x43, 0xC8, 0x00, 0x00, 0x44, 0x2F, 0x00, 0x00, 0x3F, 0x80, 0x00, 0x00, 0x40, 0x00, 0x00, 0x00]"
      using assms(1) by (simp add: scenario_one_def pattern_def)
    finally show ?thesis .
  qed
qed

lemma scenario_one_decode:
  "decode [0x43, 0xC8, 0x00, 0x00, 0x44, 0x2F, 0x00, 0x00, 0x3F, 0x80, 0x00, 0x00, 0x40, 0x00, 0x00, 0x00]
     = Inr (4, [PyFloat (Fin 400), PyFloat (Fin 700), PyFloat (Fin 1), PyFloat (Fin 2)], ''float32_be'')"
  by (simp add: decode_def unpack_f_le_def unpack_f_be_def bind_result_def score_float_array_def
      float32_of_bits_def pow2_def le_bits_def py_ne_def Let_def)

lemma scenario_one_endpoints:
  assumes "length arb = 92"
  shows "axis_endpoints (scenario_one arb) 97 4 =
           Inr (float32_of_bits (be_bits (take 4 (drop 84 arb))),
                float32_of_bits (be_bits (drop 88 arb)))"
proof -
  have len: "(97 :: int) \<le> int (length (scenario_one arb))"
    using assms by (simp add: scenario_one_length)
  have a: "take 4 (drop (nat 97 - 8) (scenario_one arb)) = take 4 (drop 84 arb)"
    using assms by (simp add: scenario_one_def)
  have b: "take 4 (drop (nat 97 - 4) (scenario_one arb)) = drop 88 arb"
    using assms by (simp add: scenario_one_def)
  have "read_axis_range (scenario_one arb) 97 =
          (Some (float32_of_bits (be_bits (take 4 (drop 84 arb)))),
           Some (float32_of_bits (be_bits (drop 88 arb))))"
    using read_axis_range_inside [OF _ len] by (simp only: a b)
  then show ?thesis by (simp add: axis_endpoints_def)
qed

lemma scenario_one_process:
  assumes "length arb = 92" "\<forall>j\<in>{5..<97}. \<not> occurs_at pattern (scenario_one arb) j"
  shows "process_spectro_file (scenario_one arb) =
     Inr (''float32_be'',
          zip (map PyFloat
                 (map (spec_wavelength (float32_of_bits (be_bits (take 4 (drop 84 arb))))
                         (spec_step (float32_of_bits (be_bits (take 4 (drop 84 arb))))
                                    (float32_of_bits (be_bits (drop 88 arb))) 4))
                      (py_range 4)))
              [PyFloat (Fin 400), PyFloat (Fin 700), PyFloat (Fin 1), PyFloat (Fin 2)])"
proof -
  have p: "pat_idx (scenario_one arb) = 97" using assms by (rule scenario_one_pat_idx)
  have l: "length (scenario_one arb) \<le> sys_maxsize"
    using assms(1) by (simp add: scenario_one_length sys_maxsize_def)
  have d: "decode (data_bytes (scenario_one arb)) =
     Inr (4, [PyFloat (Fin 400), PyFloat (Fin 700), PyFloat (Fin 1), PyFloat (Fin 2)], ''float32_be'')"
    by (simp only: scenario_one_data(2) [OF assms(1) p] scenario_one_decode)
  have e: "axis_endpoints (scenario_one arb) (pat_idx (scenario_one arb)) 4 =
           Inr (float32_of_bits (be_bits (take 4 (drop 84 arb))),
                float32_of_bits (be_bits (drop 88 arb)))"
    using scenario_one_endpoints [OF assms(1)] by (simp add: p)
  show ?thesis
    by (rule process_float32 [OF l d startswith_labels(1) e])
qed

lemma replicate4: "replicate 4 x = [x, x, x, x]"
  by (simp add: numeral_eq_Suc)

lemma py_range4: "py_range 4 = [0, 1, 2, 3]"
  by (simp add: py_range_def upt_rec)

lemma filler_length: "length scenario_one_filler = 92"
  by (simp add: scenario_one_filler_def)

lemma filler_no_marker: "\<forall>j\<in>{5..<97}. \<not> occurs_at pattern (scenario_one scenario_one_filler) j"
proof
  fix j :: nat assume j: "j \<in> {5..<97}"
  then have k: "5 \<le> j" "j - 5 < 92" by auto
  define tail where "tail = pattern @
     [0x43, 0xC8, 0x00, 0x00, 0x44, 0x2F, 0x00, 0x00] @
     [0x3F, 0x80, 0x00, 0x00, 0x40, 0x00, 0x00, 0x00 :: byte]"
  define hdr :: "byte list" where "hdr = [0x2E, 0x57, 0x41, 0x56, 0x00]"
  have lh: "length hdr = 5" by (simp add: hdr_def)
  have "scenario_one scenario_one_filler ! j = (hdr @ (scenario_one_filler @ tail)) ! j"
    by (simp add: scenario_one_def tail_def hdr_def)
  also have "\<dots> = (scenario_one_filler @ tail) ! (j - 5)"
    using nth_append_length_plus [of hdr "scenario_one_filler @ tail" "j - 5"] k(1)
    by (simp add: lh)
  also have "\<dots> = scenario_one_filler ! (j - 5)"
    using k(2) by (simp add: nth_append filler_length)
  also have "\<dots> = 0x41" using k(2) by (simp add: scenario_one_filler_def)
  finally have "scenario_one scenario_one_filler ! j = 0x41" .
  then have "scenario_one scenario_one_filler ! (j + 0) \<noteq> pattern ! 0" by (simp add: pattern_def)
  then show "\<not> occurs_at pattern (scenario_one scenario_one_filler) j"
    using occurs_at_nth [of pattern "scenario_one scenario_one_filler" j 0]
    by (auto simp: pattern_def)
qed

lemma filler_start: "float32_of_bits (be_bits (take 4 (drop 84 scenario_one_filler))) = Fin (12665153 / 1048576)"
  by (simp add: scenario_one_filler_def replicate4 float32_of_bits_def pow2_def)

lemma filler_end: "float32_of_bits (be_bits (drop 88 scenario_one_filler)) = Fin (12665153 / 1048576)"
  by (simp add: scenario_one_filler_def replicate4 float32_of_bits_def pow2_def)

lemma filler_exact: "round_double (12665153 / 1048576) = Fin (12665153 / 1048576)"
  using float32_of_bits_exact [OF filler_start] .

lemma filler_step: "spec_step (Fin (12665153 / 1048576)) (Fin (12665153 / 1048576)) 4 = Fin 0"
  by (simp add: spec_step_def fsub_def float_of_def round_double_zero round_double_numeral)

lemma filler_wavelength:
  assumes "0 \<le> i" "i < 2 ^ 63"
  shows "spec_wavelength (Fin (12665153 / 1048576)) (Fin 0) i = Fin (12665153 / 1048576)"
proof -
  from float_of_range [OF assms] obtain a where "float_of i = Fin a" by blast
  then show ?thesis by (simp add: spec_wavelength_def round_double_zero filler_exact)
qed

lemma filler_rows:
  "zip (map PyFloat
         (map (spec_wavelength (float32_of_bits (be_bits (take 4 (drop 84 scenario_one_filler))))
                 (spec_step (float32_of_bits (be_bits (take 4 (drop 84 scenario_one_filler))))
                            (float32_of_bits (be_bits (drop 88 scenario_one_filler))) 4))
              (py_range 4)))
       [PyFloat (Fin 400), PyFloat (Fin 700), PyFloat (Fin 1), PyFloat (Fin 2)] =
   [(PyFloat (Fin (12665153 / 1048576)), PyFloat (Fin 400)),
    (PyFloat (Fin (12665153 / 1048576)), PyFloat (Fin 700)),
    (PyFloat (Fin (12665153 / 1048576)), PyFloat (Fin 1)),
    (PyFloat (Fin (12665153 / 1048576)), PyFloat (Fin 2))]"
  by (simp add: filler_start filler_end filler_step py_range4 filler_wavelength)

section \<open>Facts about the error of rounding\<close>

lemma rne_error: "\<bar>of_int (rne x) - x\<bar> \<le> 1 / 2"
proof -
  have f: "of_int \<lfloor>x\<rfloor> \<le> x" "x < of_int \<lfloor>x\<rfloor> + 1" using floor_correct [of x] by simp_all
  consider (lo) "x - of_int \<lfloor>x\<rfloor> < 1 / 2" | (hi) "1 / 2 < x - of_int \<lfloor>x\<rfloor>"
    | (tie) "x - of_int \<lfloor>x\<rfloor> = 1 / 2" by linarith
  then show ?thesis
  proof cases
    case lo
    then have "rne x = \<lfloor>x\<rfloor>" by (simp add: rne_def Let_def)
    with lo f show ?thesis by linarith
  next
    case hi
    then have "rne x = \<lfloor>x\<rfloor> + 1" by (simp add: rne_def Let_def)
    with hi f show ?thesis by (simp only: of_int_add of_int_1; linarith)
  next
    case tie
    then have "rne x = \<lfloor>x\<rfloor> \<or> rne x = \<lfloor>x\<rfloor> + 1" by (rule_tac rne_cases)
    then show ?thesis
    proof
      assume "rne x = \<lfloor>x\<rfloor>"
      with tie f show ?thesis by linarith
    next
      assume "rne x = \<lfloor>x\<rfloor> + 1"
      with tie f show ?thesis by (simp only: of_int_add of_int_1; linarith)
    qed
  qed
qed

lemma round_magnitude_error:
  assumes "0 < a"
  shows "\<bar>round_magnitude a - a\<bar> \<le> pow2 (float_exponent a) / 2"
proof -
  let ?P = "pow2 (float_exponent a)"
  have P: "0 < ?P" by (rule pow2_pos)
  have "round_magnitude a - a = (of_int (rne (a / ?P)) - a / ?P) * ?P"
    using P by (simp add: round_magnitude_eq field_simps)
  then have "\<bar>round_magnitude a - a\<bar> = \<bar>of_int (rne (a / ?P)) - a / ?P\<bar> * ?P"
    using P by (simp add: abs_mult)
  also have "\<dots> \<le> (1 / 2) * ?P" using P rne_error [of "a / ?P"] by (intro mult_right_mono) simp_all
  finally show ?thesis by simp
qed

lemma float_exponent_normal:
  assumes "pow2 (- 1022) \<le> a"
  shows "pow2 (float_exponent a) \<le> a * pow2 (- 52)"
proof -
  have pos: "0 < a" using assms pow2_pos [of "- 1022"] by linarith
  from assms have "- 1022 \<le> ilog2 a" by (rule ilog2_ge)
  then have "float_exponent a = ilog2 a - 52" by (simp add: float_exponent_def)
  then have "pow2 (float_exponent a) = pow2 (ilog2 a) * pow2 (- 52)"
    using pow2_add [of "ilog2 a" "- 52"] by simp
  also have "\<dots> \<le> a * pow2 (- 52)"
    using ilog2_bounds [OF pos] pow2_pos [of "- 52"] by (intro mult_right_mono) simp_all
  finally show ?thesis .
qed

lemma round_magnitude_relative:
  assumes "pow2 (- 1022) \<le> a"
  shows "\<bar>round_magnitude a - a\<bar> \<le> a * pow2 (- 53)"
proof -
  have pos: "0 < a" using assms pow2_pos [of "- 1022"] by linarith
  have "\<bar>round_magnitude a - a\<bar> \<le> pow2 (float_exponent a) / 2" using pos by (rule round_magnitude_error)
  also have "\<dots> \<le> a * pow2 (- 52) / 2" using float_exponent_normal [OF assms] by simp
  also have "\<dots> = a * pow2 (- 53)" using pow2_add [of "- 53" 1] by (simp add: pow2_def)
  finally show ?thesis .
qed

lemma pow2_small: "pow2 (- 53) \<le> 1 / 2"
  by (simp add: pow2_def)

lemma round_magnitude_half_double:
  assumes "pow2 (- 1022) \<le> a"
  shows "a / 2 \<le> round_magnitude a" "round_magnitude a \<le> 2 * a"
proof -
  have pos: "0 < a" using assms pow2_pos [of "- 1022"] by linarith
  have "a * pow2 (- 53) \<le> a * (1 / 2)" using pos pow2_small by (intro mult_left_mono) simp_all
  with round_magnitude_relative [OF assms] have e: "\<bar>round_magnitude a - a\<bar> \<le> a / 2" by simp
  from e show "a / 2 \<le> round_magnitude a" by linarith
  from e pos show "round_magnitude a \<le> 2 * a" by linarith
qed

text \<open>The error of a rounding that does not overflow, against any bound on the magnitude.\<close>

lemma round_double_error:
  assumes "round_double x = Fin r" "\<bar>x\<bar> \<le> m" "0 < m"
  shows "\<bar>r - x\<bar> \<le> pow2 (float_exponent m) / 2"
proof -
  consider "x = 0" | "0 < x" | "x < 0" by linarith
  then show ?thesis
  proof cases
    case 1
    with assms(1) have "r = 0" by (simp add: round_double_zero)
    with 1 show ?thesis using pow2_pos [of "float_exponent m"] by simp
  next
    case 2
    with assms(1) have r: "r = round_magnitude x"
      by (simp add: round_double_pos split: if_splits)
    from 2 assms(2) have "float_exponent x \<le> float_exponent m" by (intro float_exponent_mono) simp_all
    then have "pow2 (float_exponent x) \<le> pow2 (float_exponent m)" by (simp add: pow2_le_iff)
    with round_magnitude_error [OF 2] show ?thesis by (simp add: r)
  next
    case 3
    with assms(1) have r: "r = - round_magnitude (- x)"
      by (simp add: round_double_neg split: if_splits)
    from 3 have pos: "0 < - x" by simp
    from 3 assms(2) have "float_exponent (- x) \<le> float_exponent m"
      by (intro float_exponent_mono) simp_all
    then have "pow2 (float_exponent (- x)) \<le> pow2 (float_exponent m)" by (simp add: pow2_le_iff)
    moreover have "\<bar>r - x\<bar> = \<bar>round_magnitude (- x) - (- x)\<bar>" unfolding r by (simp add: abs_minus_commute)
    ultimately show ?thesis using round_magnitude_error [OF pos] by simp
  qed
qed

text \<open>Two reals further apart than the spacing of the floats around them round apart.\<close>

lemma round_double_strict:
  assumes "round_double x = Fin rx" "round_double y = Fin ry"
      and "\<bar>x\<bar> \<le> m" "\<bar>y\<bar> \<le> m" "0 < m"
      and "pow2 (float_exponent m) < y - x"
  shows "rx < ry"
proof -
  from round_double_error [OF assms(1,3,5)] have "rx \<le> x + pow2 (float_exponent m) / 2"
    by linarith
  moreover from round_double_error [OF assms(2,4,5)] have "y - pow2 (float_exponent m) / 2 \<le> ry"
    by linarith
  ultimately show ?thesis using assms(6) by linarith
qed

section \<open>Facts about binary32 numbers\<close>

lemma float32_of_bits_shape:
  assumes "float32_of_bits w = Fin v"
  shows "\<exists>k p. v = of_int k * pow2 p \<and> \<bar>k\<bar> < 2 ^ 24 \<and> - 149 \<le> p \<and> p \<le> 104"
proof -
  define e where "e = (w div 2 ^ 23) mod 256"
  define m where "m = w mod 2 ^ 23"
  have m: "m < 2 ^ 23" by (simp add: m_def)
  have e: "e < 256" by (simp add: e_def)
  from assms have e255: "e \<noteq> 255"
    by (auto simp: float32_of_bits_def Let_def e_def split: if_splits)
  define k :: int where "k = (if e = 0 then int m else int (2 ^ 23 + m))"
  define p :: int where "p = (if e = 0 then - 149 else int e - 150)"
  from assms e255 have v: "v = of_int k * pow2 p \<or> v = of_int (- k) * pow2 p"
    by (auto simp: float32_of_bits_def Let_def e_def m_def k_def p_def split: if_splits)
  have k: "\<bar>k\<bar> < 2 ^ 24" "\<bar>- k\<bar> < 2 ^ 24" using m by (auto simp: k_def)
  have p: "- 149 \<le> p" "p \<le> 104" using e e255 by (auto simp: p_def)
  from v k p show ?thesis by blast
qed

text \<open>Two different binary32 numbers are at least a spacing of the finer one apart.\<close>

lemma multiples_apart:
  assumes "x = of_int kx * pow2 px" "y = of_int ky * pow2 py" "px \<le> py" "x \<noteq> y"
  shows "pow2 px \<le> \<bar>y - x\<bar>"
proof -
  define d where "d = nat (py - px)"
  have "pow2 py = pow2 (py - px) * pow2 px" by (simp add: pow2_add [symmetric])
  also have "pow2 (py - px) = of_int (2 ^ d)" using assms(3) by (simp add: pow2_of_int d_def)
  finally have "y - x = of_int (ky * 2 ^ d - kx) * pow2 px"
    using assms(1,2) by (simp add: algebra_simps)
  then have eq: "\<bar>y - x\<bar> = of_int \<bar>ky * 2 ^ d - kx\<bar> * pow2 px"
    using pow2_pos [of px] by (simp add: abs_mult)
  from assms(4) eq have "ky * 2 ^ d - kx \<noteq> 0" by auto
  then have "1 \<le> \<bar>ky * 2 ^ d - kx\<bar>" by simp
  then have "(1 :: rat) \<le> of_int \<bar>ky * 2 ^ d - kx\<bar>" by (simp only: of_int_1_le_iff)
  then have "1 * pow2 px \<le> of_int \<bar>ky * 2 ^ d - kx\<bar> * pow2 px"
    using pow2_pos [of px] by (intro mult_right_mono) simp_all
  with eq show ?thesis by simp
qed

lemma gap_from_finer:
  assumes "pow2 p \<le> \<bar>y - x\<bar>" "\<bar>x\<bar> + pow2 p \<le> 2 ^ 24 * pow2 p"
  shows "max \<bar>x\<bar> \<bar>y\<bar> * pow2 (- 24) \<le> \<bar>y - x\<bar>"
proof -
  have c: "pow2 (- 24) = 1 / 16777216" by (simp add: pow2_def)
  have P: "0 < pow2 p" by (rule pow2_pos)
  from assms(2) have a2: "\<bar>x\<bar> \<le> 16777215 * pow2 p" by simp
  have "max \<bar>x\<bar> \<bar>y\<bar> \<le> \<bar>x\<bar> + \<bar>y - x\<bar>" by linarith
  with a2 assms(1) have "max \<bar>x\<bar> \<bar>y\<bar> \<le> 16777216 * \<bar>y - x\<bar>" by linarith
  then show ?thesis by (simp add: c)
qed

lemma binary32_gap:
  assumes "s = of_int ks * pow2 ps" "\<bar>ks\<bar> < 2 ^ 24"
      and "e = of_int ke * pow2 pe" "\<bar>ke\<bar> < 2 ^ 24"
      and "s \<noteq> e"
  shows "max \<bar>s\<bar> \<bar>e\<bar> * pow2 (- 24) \<le> \<bar>e - s\<bar>"
proof -
  have bound: "\<bar>of_int k * pow2 p\<bar> + pow2 p \<le> 2 ^ 24 * pow2 p" if "\<bar>k\<bar> < 2 ^ 24" for k :: int and p
  proof -
    from that have "\<bar>k\<bar> + 1 \<le> 2 ^ 24" by simp
    then have "(of_int (\<bar>k\<bar> + 1) :: rat) \<le> of_int (2 ^ 24)" by (simp only: of_int_le_iff)
    then have "of_int (\<bar>k\<bar> + 1) * pow2 p \<le> (of_int (2 ^ 24) :: rat) * pow2 p"
      using pow2_pos [of p] by (intro mult_right_mono) simp_all
    then show ?thesis using pow2_pos [of p] by (simp add: abs_mult algebra_simps)
  qed
  show ?thesis
  proof (cases "ps \<le> pe")
    case True
    from multiples_apart [OF assms(1,3) True assms(5)] have "pow2 ps \<le> \<bar>e - s\<bar>" .
    moreover have "\<bar>s\<bar> + pow2 ps \<le> 2 ^ 24 * pow2 ps" unfolding assms(1) using assms(2) by (rule bound)
    ultimately show ?thesis by (rule gap_from_finer)
  next
    case False
    then have le: "pe \<le> ps" by simp
    from assms(5) have ne: "e \<noteq> s" by simp
    from multiples_apart [OF assms(3,1) le ne] have "pow2 pe \<le> \<bar>s - e\<bar>" .
    moreover have "\<bar>e\<bar> + pow2 pe \<le> 2 ^ 24 * pow2 pe" unfolding assms(3) using assms(4) by (rule bound)
    ultimately have "max \<bar>e\<bar> \<bar>s\<bar> * pow2 (- 24) \<le> \<bar>s - e\<bar>" by (rule gap_from_finer)
    then show ?thesis by (simp add: max.commute abs_minus_commute)
  qed
qed

lemma binary32_magnitude:
  assumes "s = of_int ks * pow2 ps" "- 149 \<le> ps"
      and "e = of_int ke * pow2 pe" "- 149 \<le> pe"
      and "s \<noteq> e"
  shows "pow2 (- 150) \<le> max \<bar>s\<bar> \<bar>e\<bar>"
proof -
  have "pow2 (- 149) \<le> \<bar>e - s\<bar>"
  proof (cases "ps \<le> pe")
    case True
    from multiples_apart [OF assms(1,3) True assms(5)] have "pow2 ps \<le> \<bar>e - s\<bar>" .
    moreover have "pow2 (- 149) \<le> pow2 ps" using assms(2) by (simp add: pow2_le_iff)
    ultimately show ?thesis by linarith
  next
    case False
    then have le: "pe \<le> ps" by simp
    from assms(5) have ne: "e \<noteq> s" by simp
    from multiples_apart [OF assms(3,1) le ne] have "pow2 pe \<le> \<bar>s - e\<bar>" .
    moreover have "pow2 (- 149) \<le> pow2 pe" using assms(4) by (simp add: pow2_le_iff)
    ultimately show ?thesis by linarith
  qed
  moreover have "pow2 (- 149) = 2 * pow2 (- 150)" using pow2_add [of "- 150" 1] by (simp add: pow2_def)
  ultimately show ?thesis by linarith
qed

section \<open>Facts about the strict order of the wavelengths\<close>

lemma round_double_relative:
  assumes "a = 0 \<or> pow2 (- 1022) \<le> a" "a \<le> pow2 1000"
  shows "\<exists>t. round_double a = Fin t \<and> \<bar>t - a\<bar> \<le> a * pow2 (- 53)"
proof (cases "a = 0")
  case True
  then show ?thesis by (simp add: round_double_zero)
next
  case False
  with assms(1) have n: "pow2 (- 1022) \<le> a" by simp
  then have pos: "0 < a" using pow2_pos [of "- 1022"] by linarith
  from pos assms(2) have "\<bar>a\<bar> \<le> pow2 1000" by simp
  from round_double_finite [OF this] obtain t where t: "round_double a = Fin t" by auto
  with pos have "t = round_magnitude a" by (simp add: round_double_pos split: if_splits)
  with round_magnitude_relative [OF n] t show ?thesis by simp
qed

text \<open>
  One step of the axis, for a positive step and an index below \<open>2 ^ 27\<close>: when the step exceeds
  the spacing of the floats of magnitude \<open>m\<close> by the error of the product, wavelength \<open>i + 1\<close>
  is greater than wavelength \<open>i\<close>.
\<close>

lemma strict_step:
  assumes "pow2 (- 1022) \<le> st" "0 \<le> i" "i < 2 ^ 27"
      and "- m \<le> s"
      and "s + of_int (i + 1) * st + of_int (i + 1) * st * pow2 (- 53) \<le> m"
      and "m \<le> pow2 999"
      and "pow2 (float_exponent m) + st * pow2 (- 25) < st"
  shows "\<exists>x y. spec_wavelength (Fin s) (Fin st) i = Fin x \<and>
               spec_wavelength (Fin s) (Fin st) (i + 1) = Fin y \<and> x < y"
proof -
  have c53: "pow2 (- 53) = 1 / 9007199254740992" and c25: "pow2 (- 25) = 1 / 33554432"
    by (simp_all add: pow2_def)
  have stpos: "0 < st" using assms(1) pow2_pos [of "- 1022"] by linarith
  define a where "a = of_int i * st"
  define a' where "a' = of_int (i + 1) * st"
  have aa: "a' = a + st" by (simp add: a_def a'_def algebra_simps)
  have a0: "0 \<le> a" using assms(2) stpos by (simp add: a_def)
  have a_small: "a = 0 \<or> pow2 (- 1022) \<le> a"
  proof (cases "i = 0")
    case True
    then show ?thesis by (simp add: a_def)
  next
    case False
    with assms(2) have "(1 :: rat) \<le> of_int i" by simp
    then have "1 * st \<le> of_int i * st" using stpos by (intro mult_right_mono) simp_all
    with assms(1) show ?thesis by (simp add: a_def)
  qed
  have a'_small: "a' = 0 \<or> pow2 (- 1022) \<le> a'" using aa a0 assms(1) by simp
  have m': "s + a' + a' * pow2 (- 53) \<le> m" using assms(5) by (simp add: a'_def)
  have p1000: "pow2 1000 = 2 * pow2 999" using pow2_add [of 999 1] by (simp add: pow2_def)
  have m1000: "m \<le> pow2 1000" using assms(6) p1000 pow2_pos [of 999] by linarith
  have a'_le: "a' \<le> pow2 1000" using m' assms(4,6) aa a0 stpos p1000 unfolding c53 by linarith
  have a_le: "a \<le> pow2 1000" using a'_le aa stpos by linarith
  have "i \<le> 2 ^ 27 - 1" using assms(3) by simp
  then have "(of_int i :: rat) \<le> of_int (2 ^ 27 - 1)" by (simp only: of_int_le_iff)
  then have "of_int i * st \<le> (of_int (2 ^ 27 - 1) :: rat) * st"
    using stpos by (intro mult_right_mono) simp_all
  then have a_bound: "a \<le> 134217727 * st" by (simp add: a_def)
  from round_double_relative [OF a_small a_le] obtain t where
    t: "round_double a = Fin t" "\<bar>t - a\<bar> \<le> a * pow2 (- 53)" by blast
  from round_double_relative [OF a'_small a'_le] obtain t' where
    t': "round_double a' = Fin t'" "\<bar>t' - a'\<bar> \<le> a' * pow2 (- 53)" by blast
  have diff: "st - st * pow2 (- 25) \<le> t' - t"
    using t(2) t'(2) aa a0 a_bound stpos unfolding c53 c25 by linarith
  have t_range: "0 \<le> t" "t \<le> a + a * pow2 (- 53)" using t(2) a0 unfolding c53 by linarith+
  have t'_range: "0 \<le> t'" "t' \<le> a' + a' * pow2 (- 53)"
    using t'(2) aa a0 stpos unfolding c53 by linarith+
  have mpos: "0 < m" using m' assms(4) aa a0 stpos unfolding c53 by linarith
  have bx: "\<bar>s + t\<bar> \<le> m" using t_range m' assms(4) aa stpos unfolding c53 by linarith
  have by': "\<bar>s + t'\<bar> \<le> m" using t'_range m' assms(4) unfolding c53 by linarith
  from bx m1000 have "\<bar>s + t\<bar> \<le> pow2 1000" by linarith
  from round_double_finite [OF this] obtain x where x: "round_double (s + t) = Fin x" by auto
  from by' m1000 have "\<bar>s + t'\<bar> \<le> pow2 1000" by linarith
  from round_double_finite [OF this] obtain y where y: "round_double (s + t') = Fin y" by auto
  have "pow2 (float_exponent m) < (s + t') - (s + t)" using diff assms(7) by linarith
  from round_double_strict [OF x y bx by' mpos this] have "x < y" .
  have fi: "float_of i = Fin (of_int i)"
    unfolding float_of_def using assms(2,3) by (intro round_double_int_exact) simp
  have fi': "float_of (i + 1) = Fin (of_int (i + 1))"
    unfolding float_of_def using assms(2,3) by (intro round_double_int_exact) simp
  have "spec_wavelength (Fin s) (Fin st) i = Fin x"
    using t(1) x by (simp add: spec_wavelength_def fi a_def)
  moreover have "spec_wavelength (Fin s) (Fin st) (i + 1) = Fin y"
    using t'(1) y by (simp add: spec_wavelength_def fi' a'_def)
  ultimately show ?thesis using \<open>x < y\<close> by blast
qed

text \<open>
  The step between two different binary32 endpoints \<open>s < e\<close>, for at most \<open>2 ^ 27\<close> samples. With
  \<open>M\<close> the larger magnitude of the endpoints, the whole axis stays within \<open>M + M * 2\<^sup>-\<^sup>5\<^sup>0\<close>, and
  the step exceeds the spacing of the floats of that magnitude.
\<close>

lemma step_bounds:
  assumes "s = of_int ks * pow2 ps" "\<bar>ks\<bar> < 2 ^ 24" "- 149 \<le> ps"
      and "e = of_int ke * pow2 pe" "\<bar>ke\<bar> < 2 ^ 24" "- 149 \<le> pe"
      and "\<bar>s\<bar> < pow2 128" "\<bar>e\<bar> < pow2 128"
      and "s < e" "1 < n" "n \<le> 2 ^ 27"
      and "m = max \<bar>s\<bar> \<bar>e\<bar> + max \<bar>s\<bar> \<bar>e\<bar> * pow2 (- 50)"
  shows "\<exists>st. spec_step (Fin s) (Fin e) n = Fin st \<and> pow2 (- 1022) \<le> st \<and>
              s + of_int (n - 1) * st + of_int (n - 1) * st * pow2 (- 53) \<le> m \<and>
              pow2 (float_exponent m) + st * pow2 (- 25) < st"
proof -
  have c53: "pow2 (- 53) = 1 / 9007199254740992" and c25: "pow2 (- 25) = 1 / 33554432"
    and c24: "pow2 (- 24) = 1 / 16777216" and c50: "pow2 (- 50) = 1 / 1125899906842624"
    and c52: "pow2 (- 52) = 1 / 4503599627370496"
    by (simp_all add: pow2_def)
  define M where "M = max \<bar>s\<bar> \<bar>e\<bar>"
  define d0 where "d0 = e - s"
  define K :: rat where "K = of_int (n - 1)"
  have m: "m = M + M * pow2 (- 50)" using assms(12) by (simp add: M_def)
  from assms(9) have ne: "s \<noteq> e" by simp
  have M150: "pow2 (- 150) \<le> M"
    unfolding M_def using assms(1,3,4,6) ne by (rule binary32_magnitude)
  have M128: "M < pow2 128" unfolding M_def using assms(7,8) by simp
  have Mpos: "0 < M" using M150 pow2_pos [of "- 150"] by linarith
  have sM: "- M \<le> s" and eM: "e \<le> M" unfolding M_def by linarith+
  have gap: "M * pow2 (- 24) \<le> d0"
    using binary32_gap [OF assms(1,2,4,5) ne] assms(9) by (simp add: M_def d0_def)
  have d0_up: "d0 \<le> 2 * M" unfolding d0_def M_def by linarith
  have "pow2 (- 174) = pow2 (- 150) * pow2 (- 24)" using pow2_add [of "- 150" "- 24"] by simp
  also have "\<dots> \<le> M * pow2 (- 24)" using M150 pow2_pos [of "- 24"] by (intro mult_right_mono) simp_all
  finally have d0_lo: "pow2 (- 174) \<le> d0" using gap by linarith
  have n174: "pow2 (- 1022) \<le> pow2 (- 174)" by (simp add: pow2_le_iff)
  have d0_norm: "pow2 (- 1022) \<le> d0" using d0_lo n174 by linarith
  have d0pos: "0 < d0" using d0_norm pow2_pos [of "- 1022"] by linarith
  define D where "D = round_magnitude d0"
  have D: "\<bar>D - d0\<bar> \<le> d0 * pow2 (- 53)" unfolding D_def using d0_norm by (rule round_magnitude_relative)
  have D2: "d0 / 2 \<le> D" "D \<le> 2 * d0" using D d0pos unfolding c53 by linarith+
  have p130: "pow2 131 = 8 * pow2 128" using pow2_add [of 128 3] by (simp add: pow2_def)
  have p1024: "pow2 131 < pow2 1024" by (simp add: pow2_less_iff)
  have "\<not> pow2 1024 \<le> D" using D2(2) d0_up M128 p130 p1024 pow2_pos [of 128] by linarith
  then have rD: "round_double (e - s) = Fin D" using d0pos by (simp add: round_double_pos D_def d0_def)
  have K1: "1 \<le> K" using assms(10) by (simp add: K_def)
  have "n - 1 < 2 ^ 27" using assms(11) by simp
  then have "(of_int (n - 1) :: rat) < of_int (2 ^ 27)" by (simp only: of_int_less_iff)
  then have K27: "K < 134217728" by (simp add: K_def)
  have Kpos: "0 < K" using K1 by linarith
  have fK: "float_of (n - 1) = Fin K"
    unfolding float_of_def K_def using assms(10,11) by (intro round_double_int_exact) simp
  define q where "q = D / K"
  have Kq: "K * q = D" using Kpos by (simp add: q_def)
  have Dpos: "0 < D" using D2(1) d0pos by linarith
  have qpos: "0 < q" using Dpos Kpos by (simp add: q_def)
  have "K * q < 134217728 * q" using K27 qpos by (intro mult_strict_right_mono)
  with Kq have q_lo: "D < 134217728 * q" by simp
  have p174: "pow2 (- 174) = 2 * 134217728 * (2 * pow2 (- 203))"
    using pow2_add [of "- 203" 29] by (simp add: pow2_def)
  have n203: "pow2 (- 1022) \<le> pow2 (- 203)" by (simp add: pow2_le_iff)
  have q_norm: "pow2 (- 1022) \<le> q"
    using q_lo D2(1) d0_lo p174 n203 pow2_pos [of "- 203"] by linarith
  have "K * q \<ge> 1 * q" using K1 qpos by (intro mult_right_mono) simp_all
  with Kq have q_up: "q \<le> D" by simp
  define st where "st = round_magnitude q"
  have st: "\<bar>st - q\<bar> \<le> q * pow2 (- 53)" unfolding st_def using q_norm by (rule round_magnitude_relative)
  have st2: "q / 2 \<le> st" "st \<le> 2 * q" using st qpos unfolding c53 by linarith+
  have "\<not> pow2 1024 \<le> st" using st2(2) q_up D2(2) d0_up M128 p130 p1024 pow2_pos [of 128] by linarith
  then have rst: "round_double (D / K) = Fin st" using qpos by (simp add: round_double_pos st_def q_def)
  have Kne: "K \<noteq> 0" using Kpos by simp
  have step: "spec_step (Fin s) (Fin e) n = Fin st"
    using assms(10) fK rD rst Kne by (simp add: spec_step_def fsub_def)
  have stpos: "0 < st" using st2(1) qpos by linarith
  have st_norm: "pow2 (- 1022) \<le> st"
    using st2(1) q_lo D2(1) d0_lo p174 n203 pow2_pos [of "- 203"] by linarith
  define V where "V = K * st"
  have eq_up: "K * (q + q * pow2 (- 53)) = D + D * pow2 (- 53)"
    unfolding Kq [symmetric] by (simp add: algebra_simps)
  have eq_lo: "K * (q - q * pow2 (- 53)) = D - D * pow2 (- 53)"
    unfolding Kq [symmetric] by (simp add: algebra_simps)
  have "K * st \<le> K * (q + q * pow2 (- 53))" using st Kpos by (intro mult_left_mono) linarith+
  then have V_up: "V \<le> D + D * pow2 (- 53)" unfolding eq_up V_def .
  have "K * (q - q * pow2 (- 53)) \<le> K * st" using st Kpos by (intro mult_left_mono) linarith+
  then have V_lo: "D - D * pow2 (- 53) \<le> V" unfolding eq_lo V_def .
  have D_up: "D \<le> d0 + d0 * pow2 (- 53)" and D_lo: "d0 - d0 * pow2 (- 53) \<le> D"
    using D by linarith+
  have "V + V * pow2 (- 53) \<le> d0 + d0 * (4 * pow2 (- 53))"
    using V_up D_up d0pos unfolding c53 by linarith
  also have "\<dots> \<le> d0 + M * pow2 (- 50)" using d0_up unfolding c53 c50 by linarith
  finally have up: "s + V + V * pow2 (- 53) \<le> m" using eM unfolding m d0_def by linarith
  have "K * st < 134217728 * st" using K27 stpos by (intro mult_strict_right_mono)
  then have V27: "V < 134217728 * st" by (simp add: V_def)
  have "pow2 (- 1022) \<le> pow2 (- 150)" by (simp add: pow2_le_iff)
  with M150 Mpos have "pow2 (- 1022) \<le> m" unfolding m c50 by linarith
  from float_exponent_normal [OF this] have fe: "pow2 (float_exponent m) \<le> m * pow2 (- 52)" .
  have "m \<le> M * (3 / 2)" using Mpos unfolding m c50 by linarith
  then have "m * pow2 (- 52) \<le> M * (3 / 9007199254740992)" unfolding c52 by linarith
  with fe have fe2: "pow2 (float_exponent m) \<le> M * (3 / 9007199254740992)" by linarith
  have "d0 * (15 / 16) \<le> V" using V_lo D_lo d0pos unfolding c53 by linarith
  moreover have "M * (15 / 268435456) \<le> d0 * (15 / 16)" using gap unfolding c24 by linarith
  ultimately have "M * (15 / 268435456) < 134217728 * st" using V27 by linarith
  then have st_lo: "M * (15 / 36028797018963968) < st" by linarith
  have low: "pow2 (float_exponent m) + st * pow2 (- 25) < st"
    using fe2 st_lo Mpos unfolding c25 by linarith
  from step st_norm up low show ?thesis unfolding K_def V_def by blast
qed

lemma wavelengths_step_up:
  assumes "s = of_int ks * pow2 ps" "\<bar>ks\<bar> < 2 ^ 24" "- 149 \<le> ps"
      and "e = of_int ke * pow2 pe" "\<bar>ke\<bar> < 2 ^ 24" "- 149 \<le> pe"
      and "\<bar>s\<bar> < pow2 128" "\<bar>e\<bar> < pow2 128"
      and "s < e" "n \<le> 2 ^ 27" "0 \<le> i" "i + 1 < n"
  shows "\<exists>x y. spec_wavelength (Fin s) (spec_step (Fin s) (Fin e) n) i = Fin x \<and>
               spec_wavelength (Fin s) (spec_step (Fin s) (Fin e) n) (i + 1) = Fin y \<and> x < y"
proof -
  define M where "M = max \<bar>s\<bar> \<bar>e\<bar>"
  define m where "m = M + M * pow2 (- 50)"
  have c50: "pow2 (- 50) = 1 / 1125899906842624" by (simp add: pow2_def)
  have m: "m = max \<bar>s\<bar> \<bar>e\<bar> + max \<bar>s\<bar> \<bar>e\<bar> * pow2 (- 50)" by (simp add: m_def M_def)
  from assms(11,12) have n1: "1 < n" by simp
  from step_bounds [OF assms(1-9) n1 assms(10) m] obtain st where
    st: "spec_step (Fin s) (Fin e) n = Fin st" "pow2 (- 1022) \<le> st"
      "s + of_int (n - 1) * st + of_int (n - 1) * st * pow2 (- 53) \<le> m"
      "pow2 (float_exponent m) + st * pow2 (- 25) < st"
    by blast
  have stpos: "0 < st" using st(2) pow2_pos [of "- 1022"] by linarith
  have M128: "M < pow2 128" unfolding M_def using assms(7,8) by simp
  have M0: "0 \<le> M" unfolding M_def by linarith
  have sM: "- M \<le> s" unfolding M_def by linarith
  have lo: "- m \<le> s" using sM M0 unfolding m_def c50 by linarith
  have i27: "i < 2 ^ 27" using assms(10,12) by simp
  have c53: "pow2 (- 53) = 1 / 9007199254740992" by (simp add: pow2_def)
  have "i + 1 \<le> n - 1" using assms(12) by simp
  then have "(of_int (i + 1) :: rat) \<le> of_int (n - 1)" by (simp only: of_int_le_iff)
  then have "of_int (i + 1) * st \<le> of_int (n - 1) * st" using stpos by (intro mult_right_mono) simp_all
  with st(3) have up: "s + of_int (i + 1) * st + of_int (i + 1) * st * pow2 (- 53) \<le> m"
    unfolding c53 by linarith
  have p129: "pow2 129 = 2 * pow2 128" using pow2_add [of 128 1] by (simp add: pow2_def)
  have "pow2 129 \<le> pow2 999" by (simp add: pow2_le_iff)
  with M128 M0 p129 have m999: "m \<le> pow2 999" unfolding m_def c50 by linarith
  from strict_step [OF st(2) assms(11) i27 lo up m999 st(4)] show ?thesis by (simp add: st(1))
qed

lemma fadd_fneg: "fadd (fneg x) (fneg y) = fneg (fadd x y)"
proof (cases x; cases y)
  fix a b assume "x = Fin a" "y = Fin b"
  then show ?thesis using round_double_minus [of "a + b"] by simp
qed simp_all

lemma fmul_fneg: "fmul x (fneg y) = fneg (fmul x y)"
proof (cases x; cases y)
  fix a b assume "x = Fin a" "y = Fin b"
  then show ?thesis using round_double_minus [of "a * b"] by simp
qed (auto simp: signed_inf_def)

lemma fdiv_fneg:
  assumes "0 < k"
  shows "fdiv (fneg x) (Fin k) = Inr (fneg (case fdiv x (Fin k) of Inr z \<Rightarrow> z | Inl e \<Rightarrow> NaN))"
proof (cases x)
  case (Fin a)
  then show ?thesis using assms round_double_minus [of "a / k"] by simp
qed (use assms in \<open>simp_all add: signed_inf_def\<close>)

lemma spec_step_minus:
  assumes "n \<le> 2 ^ 63"
  shows "spec_step (Fin (- s)) (Fin (- e)) n = fneg (spec_step (Fin s) (Fin e) n)"
proof (cases "1 < n")
  case False
  then show ?thesis by (simp add: spec_step_def)
next
  case True
  with assms have "1 \<le> n - 1" "n - 1 < 2 ^ 63" by simp_all
  from float_of_pos [OF this] obtain r where r: "float_of (n - 1) = Fin r" "1 \<le> r" by blast
  then have rpos: "0 < r" by simp
  have "fsub (Fin (- e)) (Fin (- s)) = fneg (fsub (Fin e) (Fin s))"
    using round_double_minus [of "e - s"] by (simp add: fsub_def)
  then show ?thesis
    using True r(1) fdiv_fneg [OF rpos, of "fsub (Fin e) (Fin s)"] by (simp add: spec_step_def)
qed

lemma spec_wavelength_minus:
  "spec_wavelength (Fin (- s)) (fneg st) i = fneg (spec_wavelength (Fin s) st i)"
  using fadd_fneg [of "Fin s" "fmul (float_of i) st"]
  by (simp add: spec_wavelength_def fmul_fneg)

lemma wavelengths_step_down:
  assumes "s = of_int ks * pow2 ps" "\<bar>ks\<bar> < 2 ^ 24" "- 149 \<le> ps"
      and "e = of_int ke * pow2 pe" "\<bar>ke\<bar> < 2 ^ 24" "- 149 \<le> pe"
      and "\<bar>s\<bar> < pow2 128" "\<bar>e\<bar> < pow2 128"
      and "e < s" "n \<le> 2 ^ 27" "0 \<le> i" "i + 1 < n"
  shows "\<exists>x y. spec_wavelength (Fin s) (spec_step (Fin s) (Fin e) n) i = Fin x \<and>
               spec_wavelength (Fin s) (spec_step (Fin s) (Fin e) n) (i + 1) = Fin y \<and> y < x"
proof -
  have s': "- s = of_int (- ks) * pow2 ps" "\<bar>- ks\<bar> < 2 ^ 24" "\<bar>- s\<bar> < pow2 128"
    using assms(1,2,7) by simp_all
  have e': "- e = of_int (- ke) * pow2 pe" "\<bar>- ke\<bar> < 2 ^ 24" "\<bar>- e\<bar> < pow2 128"
    using assms(4,5,8) by simp_all
  have lt: "- s < - e" using assms(9) by simp
  have n63: "n \<le> 2 ^ 63" using assms(10) by simp
  from wavelengths_step_up [OF s'(1,2) assms(3) e'(1,2) assms(6) s'(3) e'(3) lt assms(10-12)]
  obtain x y where xy:
    "spec_wavelength (Fin (- s)) (spec_step (Fin (- s)) (Fin (- e)) n) i = Fin x"
    "spec_wavelength (Fin (- s)) (spec_step (Fin (- s)) (Fin (- e)) n) (i + 1) = Fin y"
    "x < y" by blast
  let ?st = "spec_step (Fin s) (Fin e) n"
  from xy(1) have "fneg (spec_wavelength (Fin s) ?st i) = Fin x"
    by (simp add: spec_step_minus [OF n63] spec_wavelength_minus)
  then have a: "spec_wavelength (Fin s) ?st i = Fin (- x)"
    by (cases "spec_wavelength (Fin s) ?st i") simp_all
  from xy(2) have "fneg (spec_wavelength (Fin s) ?st (i + 1)) = Fin y"
    by (simp add: spec_step_minus [OF n63] spec_wavelength_minus)
  then have b: "spec_wavelength (Fin s) ?st (i + 1) = Fin (- y)"
    by (cases "spec_wavelength (Fin s) ?st (i + 1)") simp_all
  from a b xy(3) show ?thesis by simp
qed

lemma py_lt_le_trans: "py_lt x y \<Longrightarrow> py_le y z \<Longrightarrow> py_lt x z"
  by (cases x; cases y; cases z) simp_all

lemma py_le_lt_trans: "py_le x y \<Longrightarrow> py_lt y z \<Longrightarrow> py_lt x z"
  by (cases x; cases y; cases z) simp_all

section \<open>Facts about the long example\<close>

lemma groups4_replicate: "groups4 (replicate (4 * k) x) = replicate k [x, x, x, x]"
proof (induction k)
  case 0
  show ?case by simp
next
  case (Suc k)
  have r4: "replicate 4 x = [x, x, x, x]" by (simp add: numeral_eq_Suc)
  have "replicate (4 * Suc k) x = [x, x, x, x] @ replicate (4 * k) x"
    by (simp add: replicate_add r4)
  then show ?case using Suc by simp
qed

lemma plausible_count_replicate:
  "plausible_count (replicate k x) = (if plausible x then int k else 0)"
  by (induction k) (simp_all add: plausible_count_def)

lemma decode_zeros:
  assumes "0 < k"
  shows "decode (replicate (4 * k) 0x00) = Inr (int k, replicate k (PyFloat (Fin 0)), ''float32_be'')"
proof -
  have z: "float32_of_bits (be_bits [0x00, 0x00, 0x00, 0x00]) = Fin 0"
    "float32_of_bits (le_bits [0x00, 0x00, 0x00, 0x00]) = Fin 0"
    "float32_of_bits 0 = Fin 0"
    by (simp_all add: float32_of_bits_def le_bits_def)
  have m: "length (replicate (4 * k) (0x00 :: byte)) mod 4 = 0"
    "0 < length (replicate (4 * k) (0x00 :: byte))" using assms by simp_all
  from decode_float32 [OF m] show ?thesis
    by (simp add: groups4_replicate z plausible_count_replicate)
qed

lemma example_long_axis_length: "length example_long_axis \<le> sys_maxsize"
  by (simp add: example_long_axis_def pattern_def sys_maxsize_def)

lemma example_long_axis_provisional: "provisional_header_end example_long_axis = 0"
proof -
  have "hd wav \<notin> set example_long_axis"
    by (simp add: example_long_axis_def pattern_def wav_def)
  then have "\<not> contains example_long_axis wav"
    using contains_hd [of example_long_axis wav] by (auto simp: wav_def)
  then show ?thesis by (rule no_wav_provisional)
qed

lemma example_long_axis_pat_idx: "pat_idx example_long_axis = 8"
proof -
  have "py_find example_long_axis pattern 0 = int 8"
  proof (rule py_find_eqI)
    show "occurs_at pattern example_long_axis 8"
      by (simp add: occurs_at_def example_long_axis_def pattern_def)
  next
    fix j :: nat assume "j < 8"
    then consider "j = 0" | "j = 1" | "j = 2" | "j = 3" | "j = 4" | "j = 5" | "j = 6" | "j = 7"
      by linarith
    then show "\<not> occurs_at pattern example_long_axis j"
      by cases (simp_all add: occurs_at_def example_long_axis_def pattern_def)
  qed (simp_all add: pattern_def)
  then show ?thesis by (simp add: pat_idx_def example_long_axis_provisional)
qed

lemma example_long_axis_data: "data_bytes example_long_axis = replicate (4 * 1073741825) 0x00"
proof -
  have "header_end example_long_axis = 16"
    by (simp add: header_end_def example_long_axis_pat_idx pattern_def)
  then show ?thesis by (simp add: data_bytes_eq example_long_axis_def pattern_def)
qed

lemma example_long_axis_decode:
  "decode (data_bytes example_long_axis) =
     Inr (1073741825, replicate 1073741825 (PyFloat (Fin 0)), ''float32_be'')"
  using decode_zeros [of 1073741825] by (simp add: example_long_axis_data)

lemma example_long_axis_range:
  "read_axis_range example_long_axis (pat_idx example_long_axis) =
     (Some (Fin 1), Some (Fin (8388609 / 8388608)))"
proof -
  have len: "(8 :: int) \<le> int (length example_long_axis)"
    by (simp add: example_long_axis_def pattern_def)
  have a: "take 4 (drop (nat 8 - 8) example_long_axis) = [0x3F, 0x80, 0x00, 0x00]"
    and b: "take 4 (drop (nat 8 - 4) example_long_axis) = [0x3F, 0x80, 0x00, 0x01]"
    by (simp_all add: example_long_axis_def)
  have f: "float32_of_bits (be_bits [0x3F, 0x80, 0x00, 0x00]) = Fin 1"
    "float32_of_bits (be_bits [0x3F, 0x80, 0x00, 0x01]) = Fin (8388609 / 8388608)"
    by (simp_all add: float32_of_bits_def pow2_def)
  from read_axis_range_inside [OF _ len] show ?thesis
    by (simp only: example_long_axis_pat_idx a b f)
qed

lemma example_long_axis_step:
  "spec_step (Fin 1) (Fin (8388609 / 8388608)) 1073741825 = Fin (1 / 9007199254740992)"
proof -
  have d: "round_double (1 / 8388608) = Fin (1 / 8388608)"
    using round_double_exact [of 1 "- 23"] by (simp add: pow2_def)
  have k: "float_of 1073741824 = Fin 1073741824"
    unfolding float_of_def using round_double_int_exact [of 1073741824] by simp
  have q: "round_double (1 / 9007199254740992) = Fin (1 / 9007199254740992)"
    using round_double_exact [of 1 "- 53"] by (simp add: pow2_def)
  show ?thesis by (simp add: spec_step_def fsub_def d k q)
qed

lemma round_above_one: "round_double (9007199254740993 / 9007199254740992) = Fin 1"
proof -
  let ?a = "9007199254740993 / 9007199254740992 :: rat"
  have il: "ilog2 ?a = 0" by (rule ilog2_unique) (simp_all add: pow2_def)
  have fl: "\<lfloor>9007199254740993 / 2 :: rat\<rfloor> = 4503599627370496"
    by (rule floor_unique) simp_all
  have "round_magnitude ?a = 1"
    by (simp add: round_magnitude_def float_exponent_def il rne_def pow2_def Let_def fl)
  then show ?thesis by (simp add: round_double_pos pow2_def)
qed

lemma example_long_axis_wavelengths:
  "spec_wavelength (Fin 1) (Fin (1 / 9007199254740992)) 0 = Fin 1"
  "spec_wavelength (Fin 1) (Fin (1 / 9007199254740992)) 1 = Fin 1"
proof -
  have q: "round_double (1 / 9007199254740992) = Fin (1 / 9007199254740992)"
    using round_double_exact [of 1 "- 53"] by (simp add: pow2_def)
  show "spec_wavelength (Fin 1) (Fin (1 / 9007199254740992)) 0 = Fin 1"
    by (simp add: spec_wavelength_def float_of_0 round_double_zero round_double_one)
  show "spec_wavelength (Fin 1) (Fin (1 / 9007199254740992)) 1 = Fin 1"
    by (simp add: spec_wavelength_def float_of_one q round_above_one)
qed

lemma take_two: "1 < length xs \<Longrightarrow> take 2 xs = [xs ! 0, xs ! 1]"
proof (cases xs)
  case Nil
  assume "1 < length xs"
  with Nil show ?thesis by simp
next
  case (Cons a ys)
  assume "1 < length xs"
  with Cons show ?thesis by (cases ys) (simp_all add: numeral_2_eq_2)
qed

lemma example_long_axis_process:
  "process_spectro_file example_long_axis =
     Inr (''float32_be'',
          zip (map PyFloat (map (spec_wavelength (Fin 1) (Fin (1 / 9007199254740992)))
                                (py_range 1073741825)))
              (replicate 1073741825 (PyFloat (Fin 0))))"
proof -
  have e: "axis_endpoints example_long_axis (pat_idx example_long_axis) 1073741825 =
             Inr (Fin 1, Fin (8388609 / 8388608))"
    by (simp add: axis_endpoints_def example_long_axis_range)
  show ?thesis
    using process_float32 [OF example_long_axis_length example_long_axis_decode
        startswith_labels(1) e]
    by (simp only: example_long_axis_step)
qed

lemma example_long_axis_first:
  "first_wavelengths 2 (process_spectro_file example_long_axis) = [PyFloat (Fin 1), PyFloat (Fin 1)]"
proof -
  let ?A = "map PyFloat (map (spec_wavelength (Fin 1) (Fin (1 / 9007199254740992)))
                             (py_range 1073741825))"
  have len: "1 < length ?A" by (simp add: length_py_range)
  have n: "?A ! 0 = PyFloat (Fin 1)" "?A ! 1 = PyFloat (Fin 1)"
    by (simp_all add: length_py_range nth_py_range example_long_axis_wavelengths)
  have "take 2 ?A = [PyFloat (Fin 1), PyFloat (Fin 1)]"
    using take_two [OF len] by (simp only: n)
  then show ?thesis
    by (simp add: first_wavelengths_def example_long_axis_process take_zip)
qed

section \<open>The header boundary\<close>

text \<open>
  Claim C4, as the code has it. The header boundary is never negative, and it is at most
  the length of the buffer or 100, whichever is larger: when the marker is found the
  boundary lies within the buffer, and when it is not found the boundary is at least 100,
  also in a shorter buffer. The data region then has \<open>max 0 (length - boundary)\<close> bytes.
\<close>

theorem header_end_bounds:
  "0 \<le> header_end content \<and>
   header_end content \<le> max (int (length content)) 100 \<and>
   (pat_idx content \<noteq> - 1 \<longrightarrow> header_end content \<le> int (length content)) \<and>
   int (length (data_bytes content)) = max 0 (int (length content) - header_end content)"
proof (cases "pat_idx content = - 1")
  case True
  have "provisional_header_end content \<le> int (length content)"
    using provisional_header_end_range by blast
  with True show ?thesis
    using header_end_nonneg [of content] length_data_bytes [of content]
    by (simp add: header_end_absent)
next
  case False
  from header_end_found [OF False] show ?thesis
    using length_data_bytes [of content] by auto
qed

text \<open>A buffer whose marker is found: the boundary is within it.\<close>

theorem header_end_bounds_witness:
  "pat_idx (pattern @ [0x01]) \<noteq> - 1 \<and> header_end (pattern @ [0x01]) \<le> int (length (pattern @ [0x01]))"
proof -
  have "pat_idx (pattern @ [0x01]) \<noteq> - 1" by code_simp
  with header_end_bounds [of "pattern @ [0x01]"] show ?thesis by blast
qed

text \<open>
  Claim C4 as stated, \<open>0 \<le> HeaderBoundary \<le> length(RawBuffer)\<close>, fails on a buffer of seven
  bytes without marker: its boundary is 100.
\<close>

theorem header_end_exceeds_buffer:
  "\<not> (0 \<le> header_end [0x01, 0x02, 0x03, 0x04, 0x05, 0x06, 0x07] \<and>
      header_end [0x01, 0x02, 0x03, 0x04, 0x05, 0x06, 0x07]
        \<le> int (length [0x01, 0x02, 0x03, 0x04, 0x05, 0x06, 0x07 :: byte]))"
  by code_simp

text \<open>
  Claim C7. In a buffer that contains neither \<^verbatim>\<open>.WAV\<close> nor the marker the header boundary is
  exactly 100; when such a buffer has seven bytes the data region is empty, the format is
  \<^verbatim>\<open>bytes\<close> and no row is written.
\<close>

theorem no_wav_no_marker:
  assumes "\<not> contains content wav" "\<not> contains content pattern"
  shows "header_end content = 100 \<and>
         (length content = 7 \<longrightarrow>
            data_bytes content = [] \<and> process_spectro_file content = Inr (''bytes'', []))"
proof -
  have prov: "provisional_header_end content = 0" using assms(1) by (rule no_wav_provisional)
  have "py_find content pattern 0 = - 1"
    using assms(2) by (intro py_find_noneI) (simp_all add: not_contains)
  with prov have "pat_idx content = - 1" by (simp add: pat_idx_def)
  with prov have he: "header_end content = 100" by (simp add: header_end_absent)
  have "data_bytes content = []" if "length content = 7"
    using that he by (simp add: data_bytes_eq)
  with he show ?thesis by (simp add: process_empty_data)
qed

text \<open>The buffer of the bytes 1 to 7.\<close>

theorem no_wav_no_marker_witness:
  "header_end [0x01, 0x02, 0x03, 0x04, 0x05, 0x06, 0x07] = 100 \<and>
   data_bytes [0x01, 0x02, 0x03, 0x04, 0x05, 0x06, 0x07] = [] \<and>
   process_spectro_file [0x01, 0x02, 0x03, 0x04, 0x05, 0x06, 0x07] = Inr (''bytes'', [])"
proof -
  let ?b = "[0x01, 0x02, 0x03, 0x04, 0x05, 0x06, 0x07] :: byte list"
  have 1: "\<not> contains ?b wav" using contains_hd [of ?b wav] by (auto simp: wav_def)
  have 2: "\<not> contains ?b pattern" using contains_hd [of ?b pattern] by (auto simp: pattern_def)
  from no_wav_no_marker [OF 1 2] show ?thesis by simp
qed

text \<open>
  Claim C10. When \<^verbatim>\<open>.WAV\<close> occurs, first at offset \<open>i\<close>, and no null byte follows from there
  on, the provisional boundary stays 0, as it is without \<^verbatim>\<open>.WAV\<close> (lemma
  \<open>no_wav_provisional\<close>): the marker is searched from offset 0, and without a marker the
  boundary is \<open>max 0 100 = 100\<close>.
\<close>

theorem wav_without_null:
  assumes "first_occurrence wav content i" "0 \<notin> set (drop i content)"
  shows "provisional_header_end content = 0 \<and>
         pat_idx content = py_find content pattern 0 \<and>
         header_end content =
           (if py_find content pattern 0 \<noteq> - 1 then py_find content pattern 0 + 8 else 100)"
proof -
  from assms(1) have "py_find content wav 0 = int i"
    by (intro py_find_eqI) (auto simp: first_occurrence_def wav_def)
  moreover have "py_find content [0x00] (int i) = - 1" using assms(2) by (rule no_null_find)
  ultimately have prov: "provisional_header_end content = 0"
    by (simp add: provisional_header_end_def)
  then show ?thesis by (simp add: pat_idx_def header_end_def pattern_def)
qed

text \<open>The buffer \<^verbatim>\<open>A.WAVB\<close>.\<close>

theorem wav_without_null_witness:
  "provisional_header_end (0x41 # wav @ [0x42]) = 0 \<and> header_end (0x41 # wav @ [0x42]) = 100"
proof -
  let ?b = "0x41 # wav @ [0x42]"
  have 1: "first_occurrence wav ?b 1"
    by (simp add: first_occurrence_def occurs_at_def wav_def)
  have 2: "0 \<notin> set (drop 1 ?b)" by (simp add: wav_def)
  have 3: "py_find ?b pattern 0 = - 1" by code_simp
  from wav_without_null [OF 1 2] 3 show ?thesis by simp
qed


section \<open>Formats, rows and the axis\<close>

text \<open>
  Claim C1. When the data region has a positive multiple of 4 bytes, both decodings
  succeed and have a quarter as many values as the region has bytes; the score of each is
  the number of its values that are neither infinite nor NaN and lie strictly between
  \<open>-1000\<close> and \<open>1000\<close>; and the detector takes the big-endian values exactly when their
  score is at least the little-endian score, the little-endian values otherwise.
\<close>

theorem endianness_selection:
  assumes "length (data_bytes content) mod 4 = 0" "0 < length (data_bytes content)"
  shows "\<exists>floats_le floats_be.
     unpack_f_le (int (length (data_bytes content)) div 4) (data_bytes content) = Inr floats_le \<and>
     unpack_f_be (int (length (data_bytes content)) div 4) (data_bytes content) = Inr floats_be \<and>
     length floats_le = length (data_bytes content) div 4 \<and>
     length floats_be = length (data_bytes content) div 4 \<and>
     score_float_array floats_le = plausible_count floats_le \<and>
     score_float_array floats_be = plausible_count floats_be \<and>
     decode (data_bytes content) =
       Inr (int (length (data_bytes content)) div 4,
            (if plausible_count floats_le \<le> plausible_count floats_be
             then (map PyFloat floats_be, ''float32_be'')
             else (map PyFloat floats_le, ''float32_le'')))"
proof -
  let ?d = "data_bytes content"
  from assms(1) have "int (length ?d) mod 4 = 0" by presburger
  then have len: "int (length ?d) = 4 * max 0 (int (length ?d) div 4)" by presburger
  have le: "unpack_f_le (int (length ?d) div 4) ?d =
              Inr (map (\<lambda>g. float32_of_bits (le_bits g)) (groups4 ?d))"
    using len by (simp add: unpack_f_le_def)
  have be: "unpack_f_be (int (length ?d) div 4) ?d =
              Inr (map (\<lambda>g. float32_of_bits (be_bits g)) (groups4 ?d))"
    using len by (simp add: unpack_f_be_def)
  show ?thesis
    using le be decode_float32 [OF assms]
    by (simp add: length_groups4 score_float_array_eq)
qed

text \<open>
  In \<open>example_axis\<close> both readings of the data score 2, and the tie goes to big-endian.
\<close>

theorem endianness_selection_witness:
  "length (data_bytes example_axis) mod 4 = 0 \<and> 0 < length (data_bytes example_axis) \<and>
   plausible_count [Fin (32831 * pow2 (- 149)), Fin (64 * pow2 (- 149))] = 2 \<and>
   plausible_count [Fin 1, Fin 2] = 2 \<and>
   decode (data_bytes example_axis) = Inr (2, [PyFloat (Fin 1), PyFloat (Fin 2)], ''float32_be'')"
proof -
  have h1: "length (data_bytes example_axis) mod 4 = 0" by (simp add: example_axis_data)
  have h2: "0 < length (data_bytes example_axis)" by (simp add: example_axis_data)
  have c1: "plausible_count [Fin (32831 * pow2 (- 149)), Fin (64 * pow2 (- 149))] = 2"
    by (simp add: plausible_count_def plausible_def pow2_def)
  have c2: "plausible_count [Fin 1, Fin 2] = 2"
    by (simp add: plausible_count_def plausible_def)
  from endianness_selection [OF h1 h2] obtain floats_le floats_be where
    r: "unpack_f_le (int (length (data_bytes example_axis)) div 4) (data_bytes example_axis) = Inr floats_le"
       "unpack_f_be (int (length (data_bytes example_axis)) div 4) (data_bytes example_axis) = Inr floats_be"
       "decode (data_bytes example_axis) =
          Inr (int (length (data_bytes example_axis)) div 4,
            (if plausible_count floats_le \<le> plausible_count floats_be
             then (map PyFloat floats_be, ''float32_be'')
             else (map PyFloat floats_le, ''float32_le'')))"
    by (elim exE conjE) (rule that; assumption)
  from r(1) have le: "floats_le = [Fin (32831 * pow2 (- 149)), Fin (64 * pow2 (- 149))]"
    by (simp add: example_axis_data example_axis_le)
  from r(2) have be: "floats_be = [Fin 1, Fin 2]"
    by (simp add: example_axis_data example_axis_be)
  from r(3) have "decode (data_bytes example_axis) =
      Inr (2, [PyFloat (Fin 1), PyFloat (Fin 2)], ''float32_be'')"
    unfolding le be c1 c2 by (simp add: example_axis_data)
  with h1 h2 c1 c2 show ?thesis by (intro conjI)
qed

text \<open>
  Claim C2. The decoder returns for every buffer, and it writes as many rows as it decoded
  samples: a quarter of the length \<open>L\<close> of the data region when 4 divides \<open>L\<close>, half of it
  when only 2 does, and \<open>L\<close> otherwise.
\<close>

theorem row_count:
  assumes "length content \<le> sys_maxsize"
  shows "\<exists>n vals data_type rows.
           decode (data_bytes content) = Inr (n, vals, data_type) \<and>
           process_spectro_file content = Inr (data_type, rows) \<and>
           length rows = length vals \<and>
           length rows =
             (if length (data_bytes content) mod 4 = 0 then length (data_bytes content) div 4
              else if length (data_bytes content) mod 2 = 0 then length (data_bytes content) div 2
              else length (data_bytes content))"
proof -
  from decode_total [of "data_bytes content"] obtain n vals data_type where
    d: "decode (data_bytes content) = Inr (n, vals, data_type)" by blast
  from process_result [OF assms d] obtain wls where
    w: "length wls = nat n" "process_spectro_file content = Inr (data_type, zip wls vals)"
    by blast
  have len: "length (zip wls vals) = length vals" using w(1) decode_result(1) [OF d] by simp
  have cnt: "length (zip wls vals) =
             (if length (data_bytes content) mod 4 = 0 then length (data_bytes content) div 4
              else if length (data_bytes content) mod 2 = 0 then length (data_bytes content) div 2
              else length (data_bytes content))"
    using len decode_result(1,2) [OF d] by simp
  show ?thesis
    by (intro exI conjI) (rule d, rule w(2), rule len, rule cnt)
qed

text \<open>
  \<open>example_int16\<close> has six bytes of data and three rows.
\<close>

theorem row_count_witness:
  "\<exists>data_type rows. process_spectro_file example_int16 = Inr (data_type, rows) \<and> length rows = 3"
proof -
  from row_count [OF example_int16_length] obtain data_type rows where
    "process_spectro_file example_int16 = Inr (data_type, rows)"
    "length rows =
       (if length (data_bytes example_int16) mod 4 = 0 then length (data_bytes example_int16) div 4
        else if length (data_bytes example_int16) mod 2 = 0 then length (data_bytes example_int16) div 2
        else length (data_bytes example_int16))"
    by (elim exE conjE) (rule that; assumption)
  then show ?thesis by (simp add: example_int16_data)
qed

text \<open>
  Claim C6. The decoder raises no exception: for every buffer it returns a label and rows,
  the label is one of the four formats, and the length of the data region alone decides
  which one.
\<close>

theorem process_total:
  assumes "length content \<le> sys_maxsize"
  shows "\<exists>data_type rows.
           process_spectro_file content = Inr (data_type, rows) \<and>
           data_type \<in> {''float32_be'', ''float32_le'', ''int16'', ''bytes''} \<and>
           (data_type \<in> {''float32_be'', ''float32_le''} \<longleftrightarrow>
              length (data_bytes content) mod 4 = 0 \<and> 0 < length (data_bytes content)) \<and>
           (data_type = ''int16'' \<longleftrightarrow>
              length (data_bytes content) mod 4 \<noteq> 0 \<and> length (data_bytes content) mod 2 = 0) \<and>
           (data_type = ''bytes'' \<longleftrightarrow>
              length (data_bytes content) mod 2 \<noteq> 0 \<or> length (data_bytes content) = 0)"
proof -
  from decode_total [of "data_bytes content"] obtain n vals data_type where
    d: "decode (data_bytes content) = Inr (n, vals, data_type)" by blast
  note r = decode_result [OF d]
  from r(5) have "startswith data_type ''float32'' \<longleftrightarrow> data_type \<in> {''float32_be'', ''float32_le''}"
    by (auto simp: startswith_def)
  with r(6) have fl: "data_type \<in> {''float32_be'', ''float32_le''} \<longleftrightarrow>
              length (data_bytes content) mod 4 = 0 \<and> 0 < length (data_bytes content)" by simp
  from process_result [OF assms d] obtain wls where
    p: "process_spectro_file content = Inr (data_type, zip wls vals)" by blast
  show ?thesis
    by (intro exI conjI) (rule p, rule r(5), rule fl, rule r(7), rule r(8))
qed

text \<open>
  \<open>example_no_axis\<close> is decoded as floats.
\<close>

theorem process_total_witness:
  "\<exists>data_type rows. process_spectro_file example_no_axis = Inr (data_type, rows) \<and>
     data_type \<in> {''float32_be'', ''float32_le''}"
proof -
  from process_total [OF example_no_axis_length] obtain data_type rows where
    "process_spectro_file example_no_axis = Inr (data_type, rows)"
    "data_type \<in> {''float32_be'', ''float32_le''} \<longleftrightarrow>
       length (data_bytes example_no_axis) mod 4 = 0 \<and> 0 < length (data_bytes example_no_axis)"
    by (elim exE conjE) (rule that; assumption)
  then show ?thesis by (simp add: example_no_axis_data)
qed

text \<open>
  Claim C3. With a float format and the marker found at \<open>pat_idx\<close>: from offset 8 on, the
  endpoints of the axis are the two big-endian floats in the 8 bytes before the marker;
  below offset 8 a slice wraps around or is empty, the read fails, and the endpoints are
  \<open>0.0\<close> and \<open>float(N - 1)\<close>, which is \<open>N - 1\<close> exactly up to \<open>2 ^ 53\<close>.
\<close>

theorem axis_range_read:
  assumes "length content \<le> sys_maxsize"
      and "decode (data_bytes content) = Inr (n, vals, data_type)"
      and "startswith data_type ''float32''"
      and "pat_idx content \<noteq> - 1"
  shows "(8 \<le> pat_idx content \<longrightarrow>
            axis_endpoints content (pat_idx content) n =
              Inr (float32_of_bits (be_bits (take 4 (drop (nat (pat_idx content) - 8) content))),
                   float32_of_bits (be_bits (take 4 (drop (nat (pat_idx content) - 4) content))))) \<and>
         (pat_idx content < 8 \<longrightarrow>
            read_axis_range content (pat_idx content) = (None, None) \<and>
            axis_endpoints content (pat_idx content) n = Inr (Fin 0, float_of (n - 1)) \<and>
            (n \<le> 2 ^ 53 \<longrightarrow> float_of (n - 1) = Fin (of_int (n - 1))))"
proof -
  from header_end_found [OF assms(4)] obtain r where
    r: "pat_idx content = int r" "r + 8 \<le> length content" by blast
  have bound: "n \<le> 2 ^ 63" using assms(1,2) by (rule count_bound)
  have n1: "1 \<le> n" using assms(2,3) by (rule float32_count)
  note ends = axis_endpoints_cases [OF n1 bound, of content "pat_idx content"]
  have inside: "8 \<le> pat_idx content \<longrightarrow>
            axis_endpoints content (pat_idx content) n =
              Inr (float32_of_bits (be_bits (take 4 (drop (nat (pat_idx content) - 8) content))),
                   float32_of_bits (be_bits (take 4 (drop (nat (pat_idx content) - 4) content))))"
  proof
    assume "8 \<le> pat_idx content"
    moreover have "pat_idx content \<le> int (length content)" using r by simp
    ultimately show "axis_endpoints content (pat_idx content) n =
              Inr (float32_of_bits (be_bits (take 4 (drop (nat (pat_idx content) - 8) content))),
                   float32_of_bits (be_bits (take 4 (drop (nat (pat_idx content) - 4) content))))"
      by (simp add: ends read_axis_range_inside)
  qed
  have wrapped: "pat_idx content < 8 \<longrightarrow>
            read_axis_range content (pat_idx content) = (None, None) \<and>
            axis_endpoints content (pat_idx content) n = Inr (Fin 0, float_of (n - 1)) \<and>
            (n \<le> 2 ^ 53 \<longrightarrow> float_of (n - 1) = Fin (of_int (n - 1)))"
  proof
    assume lt: "pat_idx content < 8"
    have "read_axis_range content (pat_idx content) = (None, None)"
      using r lt by (intro read_axis_range_wrapped) simp_all
    moreover from this have "axis_endpoints content (pat_idx content) n = Inr (Fin 0, float_of (n - 1))"
      by (simp add: ends)
    moreover have "n \<le> 2 ^ 53 \<longrightarrow> float_of (n - 1) = Fin (of_int (n - 1))"
    proof
      assume "n \<le> 2 ^ 53"
      with n1 have "\<bar>n - 1\<bar> < 2 ^ 53" by simp
      then show "float_of (n - 1) = Fin (of_int (n - 1))"
        unfolding float_of_def by (rule round_double_int_exact)
    qed
    ultimately show "read_axis_range content (pat_idx content) = (None, None) \<and>
            axis_endpoints content (pat_idx content) n = Inr (Fin 0, float_of (n - 1)) \<and>
            (n \<le> 2 ^ 53 \<longrightarrow> float_of (n - 1) = Fin (of_int (n - 1)))" by blast
  qed
  from inside wrapped show ?thesis by (rule conjI)
qed

text \<open>
  \<open>example_axis\<close> has its marker at offset 8 and the endpoints 400 and 700;
  \<open>example_no_axis\<close> has it at offset 0 and the default endpoints.
\<close>

theorem axis_range_read_witness:
  "axis_endpoints example_axis (pat_idx example_axis) 2 = Inr (Fin 400, Fin 700) \<and>
   pat_idx example_no_axis < 8 \<and>
   read_axis_range example_no_axis (pat_idx example_no_axis) = (None, None) \<and>
   axis_endpoints example_no_axis (pat_idx example_no_axis) 1 = Inr (Fin 0, Fin 0)"
proof -
  have h3: "startswith ''float32_be'' ''float32''" by (rule startswith_labels)
  have p1: "pat_idx example_axis \<noteq> - 1" "8 \<le> pat_idx example_axis"
    by (simp_all add: example_axis_pat_idx)
  have p2: "pat_idx example_no_axis \<noteq> - 1" "pat_idx example_no_axis < 8"
    by (simp_all add: example_no_axis_pat_idx)
  have t: "take 4 example_axis = [0x43, 0xC8, 0x00, 0x00]"
    "take 4 (drop 4 example_axis) = [0x44, 0x2F, 0x00, 0x00]"
    by (simp_all add: example_axis_def)
  have a: "axis_endpoints example_axis (pat_idx example_axis) 2 = Inr (Fin 400, Fin 700)"
    using axis_range_read [OF example_axis_length example_axis_decode h3 p1(1)] p1(2)
    unfolding example_axis_pat_idx by (simp add: t float32_of_bits_def pow2_def)
  have b: "read_axis_range example_no_axis (pat_idx example_no_axis) = (None, None)"
    "axis_endpoints example_no_axis (pat_idx example_no_axis) 1 = Inr (Fin 0, Fin 0)"
    using axis_range_read [OF example_no_axis_length example_no_axis_decode h3 p2(1)] p2(2)
    by (simp_all add: float_of_0)
  from a p2(2) b show ?thesis by (intro conjI)
qed

text \<open>
  Claim C8. With a float format the axis has \<open>N\<close> wavelengths, and the one of sample \<open>i\<close> is
  \<open>start + i * step\<close>, where \<open>step\<close> is \<open>(end - start) / (N - 1)\<close> for \<open>N > 1\<close> and \<open>0\<close>
  otherwise, each operation rounded as a float operation.
\<close>

theorem axis_formula:
  assumes "length content \<le> sys_maxsize"
      and "decode (data_bytes content) = Inr (n, vals, data_type)"
      and "startswith data_type ''float32''"
  shows "\<exists>start_wl end_wl wls.
           axis_endpoints content (pat_idx content) n = Inr (start_wl, end_wl) \<and>
           axis_step start_wl end_wl n =
             Inr (if 1 < n then PyFloat (spec_step start_wl end_wl n) else PyInt 0) \<and>
           (1 < n \<longrightarrow> fdiv (fsub end_wl start_wl) (float_of (n - 1))
                        = Inr (spec_step start_wl end_wl n)) \<and>
           (n \<le> 1 \<longrightarrow> spec_step start_wl end_wl n = Fin 0) \<and>
           wavelengths content (pat_idx content) n data_type = Inr wls \<and>
           length wls = nat n \<and>
           (\<forall>i<nat n. wls ! i =
              PyFloat (spec_wavelength start_wl (spec_step start_wl end_wl n) (int i))) \<and>
           process_spectro_file content = Inr (data_type, zip wls vals)"
proof -
  have bound: "n \<le> 2 ^ 63" using assms(1,2) by (rule count_bound)
  have n1: "1 \<le> n" using assms(2,3) by (rule float32_count)
  from wavelengths_float32 [OF assms(3) n1 bound, of content "pat_idx content"]
  obtain start_wl end_wl where
    e: "axis_endpoints content (pat_idx content) n = Inr (start_wl, end_wl)"
    and w: "wavelengths content (pat_idx content) n data_type =
          Inr (map (\<lambda>i. PyFloat (spec_wavelength start_wl (spec_step start_wl end_wl n) i))
                 (py_range n))" by blast
  let ?wls = "map (\<lambda>i. PyFloat (spec_wavelength start_wl (spec_step start_wl end_wl n) i))
                 (py_range n)"
  have step: "axis_step start_wl end_wl n =
             Inr (if 1 < n then PyFloat (spec_step start_wl end_wl n) else PyInt 0)"
    using bound by (simp add: axis_step_float axis_step_zero)
  have quot: "1 < n \<longrightarrow> fdiv (fsub end_wl start_wl) (float_of (n - 1))
                        = Inr (spec_step start_wl end_wl n)"
  proof
    assume "1 < n"
    with bound have "1 \<le> n - 1" "n - 1 < 2 ^ 63" by simp_all
    from float_of_pos [OF this] obtain r where "float_of (n - 1) = Fin r" "1 \<le> r" by blast
    then obtain s where "fdiv (fsub end_wl start_wl) (float_of (n - 1)) = Inr s"
      using fdiv_total [of "float_of (n - 1)" r "fsub end_wl start_wl"] by auto
    with \<open>1 < n\<close> show "fdiv (fsub end_wl start_wl) (float_of (n - 1))
                        = Inr (spec_step start_wl end_wl n)" by (simp add: spec_step_def)
  qed
  have zero: "n \<le> 1 \<longrightarrow> spec_step start_wl end_wl n = Fin 0"
    by (simp add: spec_step_def)
  have len: "length ?wls = nat n" by (simp add: length_py_range)
  have nth: "\<forall>i<nat n. ?wls ! i =
               PyFloat (spec_wavelength start_wl (spec_step start_wl end_wl n) (int i))"
    by (simp add: length_py_range nth_py_range)
  have p: "process_spectro_file content = Inr (data_type, zip ?wls vals)"
    using assms(2) w by (simp add: process_spectro_file_def bind_result_Inr)
  show ?thesis
    by (intro exI conjI) (rule e, rule step, rule quot, rule zero, rule w, rule len, rule nth, rule p)
qed

text \<open>
  The rows of \<open>example_axis\<close>: wavelengths 400 and 700, values 1 and 2.
\<close>

theorem axis_formula_witness:
  "process_spectro_file example_axis =
     Inr (''float32_be'', [(PyFloat (Fin 400), PyFloat (Fin 1)), (PyFloat (Fin 700), PyFloat (Fin 2))])"
proof -
  have h3: "startswith ''float32_be'' ''float32''" by (rule startswith_labels)
  from axis_formula [OF example_axis_length example_axis_decode h3]
  obtain start_wl end_wl wls where
    r: "axis_endpoints example_axis (pat_idx example_axis) 2 = Inr (start_wl, end_wl)"
      "length wls = nat 2"
      "\<forall>i<nat 2. wls ! i = PyFloat (spec_wavelength start_wl (spec_step start_wl end_wl 2) (int i))"
      "process_spectro_file example_axis = Inr (''float32_be'', zip wls [PyFloat (Fin 1), PyFloat (Fin 2)])"
    by (elim exE conjE) (rule that; assumption)
  from r(1) have se: "start_wl = Fin 400" "end_wl = Fin 700"
    by (simp_all add: example_axis_pat_idx example_axis_endpoints)
  from r(2) have "wls = [wls ! 0, wls ! 1]" by (intro list2_nth) simp
  moreover from r(3) have "wls ! 0 = PyFloat (Fin 400)" "wls ! 1 = PyFloat (Fin 700)"
    by (simp_all add: se example_axis_step example_axis_wavelength_0 example_axis_wavelength_1)
  ultimately have "wls = [PyFloat (Fin 400), PyFloat (Fin 700)]" by simp
  with r(4) show ?thesis by simp
qed

section \<open>Monotonicity of the axis\<close>

text \<open>
  Claim C9, as the code has it. When both endpoints are read from the bytes before the
  marker and are finite, and they differ, the wavelengths begin at \<open>start\<close> and are monotonic:
  for every number of samples they never decrease when \<open>end > start\<close> and never increase when
  \<open>end < start\<close>, and for at most \<open>2 ^ 27\<close> samples they are strictly increasing when
  \<open>end > start\<close> and strictly decreasing when \<open>end < start\<close>. With one sample the axis is
  the single value \<open>start\<close>.
\<close>

theorem axis_monotone:
  assumes "length content \<le> sys_maxsize"
      and "decode (data_bytes content) = Inr (n, vals, data_type)"
      and "startswith data_type ''float32''"
      and "read_axis_range content (pat_idx content) = (Some (Fin s), Some (Fin e))"
      and "s \<noteq> e"
  shows "\<exists>wls. process_spectro_file content = Inr (data_type, zip (map PyFloat wls) vals) \<and>
           length wls = nat n \<and> wls ! 0 = Fin s \<and>
           (s < e \<longrightarrow> (\<forall>i j. i \<le> j \<and> j < nat n \<longrightarrow> py_le (wls ! i) (wls ! j))) \<and>
           (e < s \<longrightarrow> (\<forall>i j. i \<le> j \<and> j < nat n \<longrightarrow> py_le (wls ! j) (wls ! i))) \<and>
           (n \<le> 2 ^ 27 \<longrightarrow>
              (s < e \<longrightarrow> (\<forall>i j. i < j \<and> j < nat n \<longrightarrow> py_lt (wls ! i) (wls ! j))) \<and>
              (e < s \<longrightarrow> (\<forall>i j. i < j \<and> j < nat n \<longrightarrow> py_lt (wls ! j) (wls ! i))))"
proof -
  have bound: "n \<le> 2 ^ 63" using assms(1,2) by (rule count_bound)
  have n1: "1 \<le> n" using assms(2,3) by (rule float32_count)
  from read_axis_range_Some [OF assms(4)] obtain w1 w2 where
    w: "float32_of_bits w1 = Fin s" "float32_of_bits w2 = Fin e" by metis
  have sb: "\<bar>s\<bar> < pow2 128" and eb: "\<bar>e\<bar> < pow2 128"
    using w by (simp_all add: float32_of_bits_bound)
  from float32_of_bits_shape [OF w(1)] obtain ks ps where
    ss: "s = of_int ks * pow2 ps" "\<bar>ks\<bar> < 2 ^ 24" "- 149 \<le> ps" by blast
  from float32_of_bits_shape [OF w(2)] obtain ke pe where
    es: "e = of_int ke * pow2 pe" "\<bar>ke\<bar> < 2 ^ 24" "- 149 \<le> pe" by blast
  have ends: "axis_endpoints content (pat_idx content) n = Inr (Fin s, Fin e)"
    using assms(4) by (simp add: axis_endpoints_def)
  from spec_step_finite [OF sb eb bound] obtain st where
    st: "spec_step (Fin s) (Fin e) n = Fin st" "s \<le> e \<longrightarrow> 0 \<le> st" "e \<le> s \<longrightarrow> st \<le> 0"
    by blast
  let ?w = "spec_wavelength (Fin s) (Fin st)"
  let ?wls = "map ?w (py_range n)"
  have p: "process_spectro_file content = Inr (data_type, zip (map PyFloat ?wls) vals)"
    using process_float32 [OF assms(1-3) ends] by (simp add: st)
  have len: "length ?wls = nat n" by (simp add: length_py_range)
  have nth: "?wls ! i = ?w (int i)" if "i < nat n" for i
    using that by (simp add: length_py_range nth_py_range)
  have first: "?wls ! 0 = Fin s"
    using n1 nth [of 0] float32_of_bits_exact [OF w(1)] by (simp add: spec_wavelength_first)
  have weak_up: "py_le (?wls ! i) (?wls ! j)" if "s < e" "i \<le> j" "j < nat n" for i j
  proof -
    from that st(2) bound have "0 \<le> st" "0 \<le> int i" "int i \<le> int j" "int j < 2 ^ 63" by simp_all
    then have "py_le (?w (int i)) (?w (int j))" by (rule spec_wavelength_mono)
    with that show ?thesis by (simp add: nth)
  qed
  have weak_down: "py_le (?wls ! j) (?wls ! i)" if "e < s" "i \<le> j" "j < nat n" for i j
  proof -
    from that st(3) bound have "st \<le> 0" "0 \<le> int i" "int i \<le> int j" "int j < 2 ^ 63" by simp_all
    then have "py_le (?w (int j)) (?w (int i))" by (rule spec_wavelength_antimono)
    with that show ?thesis by (simp add: nth)
  qed
  have strict_up: "py_lt (?wls ! i) (?wls ! j)" if "n \<le> 2 ^ 27" "s < e" "i < j" "j < nat n" for i j
  proof -
    from that(3,4) have i1: "0 \<le> int i" "int i + 1 < n" "Suc i \<le> j" "i < nat n" "Suc i < nat n"
      by simp_all
    from wavelengths_step_up [OF ss es sb eb that(2,1) i1(1,2)] obtain x y where
      "?w (int i) = Fin x" "?w (int i + 1) = Fin y" "x < y" by (auto simp: st(1))
    then have "py_lt (?wls ! i) (?wls ! Suc i)"
      using i1(4,5) by (simp add: nth add.commute)
    moreover have "py_le (?wls ! Suc i) (?wls ! j)" using that(2) i1(3) that(4) by (rule weak_up)
    ultimately show ?thesis by (rule py_lt_le_trans)
  qed
  have strict_down: "py_lt (?wls ! j) (?wls ! i)" if "n \<le> 2 ^ 27" "e < s" "i < j" "j < nat n" for i j
  proof -
    from that(3,4) have i1: "0 \<le> int i" "int i + 1 < n" "Suc i \<le> j" "i < nat n" "Suc i < nat n"
      by simp_all
    from wavelengths_step_down [OF ss es sb eb that(2,1) i1(1,2)] obtain x y where
      "?w (int i) = Fin x" "?w (int i + 1) = Fin y" "y < x" by (auto simp: st(1))
    then have "py_lt (?wls ! Suc i) (?wls ! i)"
      using i1(4,5) by (simp add: nth add.commute)
    moreover have "py_le (?wls ! j) (?wls ! Suc i)" using that(2) i1(3) that(4) by (rule weak_down)
    ultimately show ?thesis by (rule py_le_lt_trans [rotated])
  qed
  show ?thesis
  proof (intro exI conjI)
    show "process_spectro_file content = Inr (data_type, zip (map PyFloat ?wls) vals)" by (rule p)
    show "length ?wls = nat n" by (rule len)
    show "?wls ! 0 = Fin s" by (rule first)
    show "s < e \<longrightarrow> (\<forall>i j. i \<le> j \<and> j < nat n \<longrightarrow> py_le (?wls ! i) (?wls ! j))"
      using weak_up by blast
    show "e < s \<longrightarrow> (\<forall>i j. i \<le> j \<and> j < nat n \<longrightarrow> py_le (?wls ! j) (?wls ! i))"
      using weak_down by blast
    show "n \<le> 2 ^ 27 \<longrightarrow>
              (s < e \<longrightarrow> (\<forall>i j. i < j \<and> j < nat n \<longrightarrow> py_lt (?wls ! i) (?wls ! j))) \<and>
              (e < s \<longrightarrow> (\<forall>i j. i < j \<and> j < nat n \<longrightarrow> py_lt (?wls ! j) (?wls ! i)))"
      using strict_up strict_down by blast
  qed
qed

text \<open>
  The axis of \<open>example_axis\<close> begins at 400 and increases strictly.
\<close>

theorem axis_monotone_witness:
  "\<exists>wls. process_spectro_file example_axis =
            Inr (''float32_be'', zip (map PyFloat wls) [PyFloat (Fin 1), PyFloat (Fin 2)]) \<and>
         length wls = 2 \<and> wls ! 0 = Fin 400 \<and> py_le (wls ! 0) (wls ! 1) \<and> py_lt (wls ! 0) (wls ! 1)"
proof -
  have h3: "startswith ''float32_be'' ''float32''" by (rule startswith_labels)
  have h5: "(400 :: rat) \<noteq> 700" by simp
  from axis_monotone [OF example_axis_length example_axis_decode h3 example_axis_range h5]
  obtain wls where
    r: "process_spectro_file example_axis =
          Inr (''float32_be'', zip (map PyFloat wls) [PyFloat (Fin 1), PyFloat (Fin 2)])"
       "length wls = nat 2" "wls ! 0 = Fin 400"
       "(400 :: rat) < 700 \<longrightarrow> (\<forall>i j. i \<le> j \<and> j < nat 2 \<longrightarrow> py_le (wls ! i) (wls ! j))"
       "(2 :: int) \<le> 2 ^ 27 \<longrightarrow>
          ((400 :: rat) < 700 \<longrightarrow> (\<forall>i j. i < j \<and> j < nat 2 \<longrightarrow> py_lt (wls ! i) (wls ! j))) \<and>
          ((700 :: rat) < 400 \<longrightarrow> (\<forall>i j. i < j \<and> j < nat 2 \<longrightarrow> py_lt (wls ! j) (wls ! i)))"
    by (elim exE conjE) (rule that; assumption)
  from r(4) have a: "py_le (wls ! 0) (wls ! 1)" by simp
  from r(5) have b: "py_lt (wls ! 0) (wls ! 1)" by simp
  from r(1-3) a b show ?thesis by (intro exI [of _ wls]) simp
qed

text \<open>
  Claim C9 as stated fails in two ways. When an endpoint read from the metadata is infinite:
  in \<open>example_inf_axis\<close> the range is read, \<open>start = -inf\<close> and \<open>end = 1.0\<close> differ and
  \<open>end > start\<close>; the step is \<open>inf\<close>, both wavelengths are NaN, and the sequence is not
  strictly increasing. And when the samples are too many for the range: in
  \<open>example_long_axis\<close> the range is read, \<open>start = 1.0\<close> is less than \<open>end\<close>, the next
  binary32 number, and there are \<open>2 ^ 30 + 1\<close> samples; the step is \<open>2 ^ -53\<close>, and
  \<open>1.0 + 2 ^ -53\<close> rounds to 1.0, so that the first two wavelengths are both 1.0.
\<close>

theorem axis_not_monotone:
  "read_axis_range example_inf_axis (pat_idx example_inf_axis) = (Some NInf, Some (Fin 1)) \<and>
   py_ne NInf (Fin 1) \<and> py_lt NInf (Fin 1) \<and>
   process_spectro_file example_inf_axis =
     Inr (''float32_be'', [(PyFloat NaN, PyFloat (Fin 1)), (PyFloat NaN, PyFloat (Fin 2))]) \<and>
   \<not> py_lt NaN NaN \<and>
   read_axis_range example_long_axis (pat_idx example_long_axis) =
     (Some (Fin 1), Some (Fin (8388609 / 8388608))) \<and>
   py_ne (Fin 1) (Fin (8388609 / 8388608)) \<and> py_lt (Fin 1) (Fin (8388609 / 8388608)) \<and>
   first_wavelengths 2 (process_spectro_file example_long_axis) =
     [PyFloat (Fin 1), PyFloat (Fin 1)] \<and>
   \<not> py_lt (Fin 1) (Fin 1)"
proof -
  have h3: "startswith ''float32_be'' ''float32''" by (rule startswith_labels)
  have ends: "axis_endpoints example_inf_axis (pat_idx example_inf_axis) 2 = Inr (NInf, Fin 1)"
    by (simp add: axis_endpoints_def example_inf_axis_range)
  have r: "py_range 2 = [0, 1]" by (simp add: py_range_def upt_rec)
  have "process_spectro_file example_inf_axis =
     Inr (''float32_be'', [(PyFloat NaN, PyFloat (Fin 1)), (PyFloat NaN, PyFloat (Fin 2))])"
    using process_float32 [OF example_inf_axis_length example_inf_axis_decode h3 ends]
    by (simp add: example_inf_axis_step r spec_wavelength_def float_of_0 float_of_one signed_inf_def)
  then show ?thesis
    by (simp add: example_inf_axis_range example_long_axis_range example_long_axis_first py_ne_def)
qed

section \<open>Scenario 1\<close>

text \<open>
  Claim C5, as the code has it. On the buffer of scenario 1, when the marker does not
  occur between offset 5 and its place at offset 97, the format is \<^verbatim>\<open>float32_be\<close> and the
  header boundary is 105, just after the marker. The data region is all that follows the
  marker, so there are four rows, with the values 400, 700, 1 and 2; the endpoints of the
  axis are the two big-endian floats in the last 8 of the 92 bytes, which precede the
  marker.
\<close>

theorem scenario_one_rows:
  assumes "length arb = 92" "\<forall>j\<in>{5..<97}. \<not> occurs_at pattern (scenario_one arb) j"
  shows "pat_idx (scenario_one arb) = 97 \<and> header_end (scenario_one arb) = 105 \<and>
         process_spectro_file (scenario_one arb) =
           Inr (''float32_be'',
                zip (map PyFloat
                       (map (spec_wavelength (float32_of_bits (be_bits (take 4 (drop 84 arb))))
                               (spec_step (float32_of_bits (be_bits (take 4 (drop 84 arb))))
                                          (float32_of_bits (be_bits (drop 88 arb))) 4))
                            (py_range 4)))
                    [PyFloat (Fin 400), PyFloat (Fin 700), PyFloat (Fin 1), PyFloat (Fin 2)])"
proof -
  have p: "pat_idx (scenario_one arb) = 97" using assms by (rule scenario_one_pat_idx)
  from scenario_one_data(1) [OF assms(1) p] p scenario_one_process [OF assms]
  show ?thesis by (intro conjI)
qed

text \<open>
  With the letter \<^verbatim>\<open>A\<close> for the 92 bytes both endpoints are \<open>12665153 / 1048576\<close>, about
  12.08, and so is every wavelength.
\<close>

theorem scenario_one_rows_witness:
  "pat_idx (scenario_one scenario_one_filler) = 97 \<and>
   header_end (scenario_one scenario_one_filler) = 105 \<and>
   process_spectro_file (scenario_one scenario_one_filler) =
     Inr (''float32_be'',
          [(PyFloat (Fin (12665153 / 1048576)), PyFloat (Fin 400)),
           (PyFloat (Fin (12665153 / 1048576)), PyFloat (Fin 700)),
           (PyFloat (Fin (12665153 / 1048576)), PyFloat (Fin 1)),
           (PyFloat (Fin (12665153 / 1048576)), PyFloat (Fin 2))])"
  using scenario_one_rows [OF filler_length filler_no_marker] by (simp only: filler_rows)

text \<open>
  Claim C5 as stated fails on that buffer: it has four rows, not the two rows with the
  wavelengths 400 and 700 and the values 1 and 2.
\<close>

theorem scenario_one_not_two_rows:
  "process_spectro_file (scenario_one scenario_one_filler) =
     Inr (''float32_be'',
          [(PyFloat (Fin (12665153 / 1048576)), PyFloat (Fin 400)),
           (PyFloat (Fin (12665153 / 1048576)), PyFloat (Fin 700)),
           (PyFloat (Fin (12665153 / 1048576)), PyFloat (Fin 1)),
           (PyFloat (Fin (12665153 / 1048576)), PyFloat (Fin 2))]) \<and>
   process_spectro_file (scenario_one scenario_one_filler) \<noteq>
     Inr (''float32_be'',
          [(PyFloat (Fin 400), PyFloat (Fin 1)), (PyFloat (Fin 700), PyFloat (Fin 2))])"
  using scenario_one_process [OF filler_length filler_no_marker] by (simp only: filler_rows) simp

end
